theory Spec2Isabelle
  imports Main "HOL-Library.Sublist"
begin

section \<open>Values, user functions and the engine's state\<close>

text \<open>
  The reactive engine of \<^verbatim>\<open>index.js\<close> keeps its whole state in module-level variables:
  \<^verbatim>\<open>bucket\<close>, \<^verbatim>\<open>data\<close>, \<^verbatim>\<open>activeEffect\<close>, \<^verbatim>\<open>effectStack\<close>,
  \<^verbatim>\<open>jobQueue\<close>, \<^verbatim>\<open>isFlushing\<close>, and in the closures made by \<^verbatim>\<open>effect\<close>,
  \<^verbatim>\<open>computed\<close> and \<^verbatim>\<open>watch\<close>. The model threads one record through every
  function. Function objects have identity in JavaScript; here an effect runner is its index
  in the table \<open>effs\<close>, a computed handle its index in \<open>comps\<close>, a watch registration its
  index in \<open>watches\<close>.
\<close>

type_synonym key = string
type_synonym eid = nat

text \<open>The values stored in \<^verbatim>\<open>data\<close>: primitives, and \<open>Obj\<close> for a reference to the
  proxy \<^verbatim>\<open>obj\<close> itself (the only value whose \<^verbatim>\<open>typeof\<close> is \<^verbatim>\<open>'object'\<close>).\<close>

datatype val = Undefined | Num int | Bool bool | Str string | Obj

text \<open>The keys of the outer \<^verbatim>\<open>WeakMap\<close>: the raw object \<^verbatim>\<open>data\<close>, or the
  handle object returned by the n-th call of \<^verbatim>\<open>computed\<close>.\<close>

datatype target = Data | Handle nat

text \<open>
  A user function (the \<^verbatim>\<open>fn\<close> of an effect, a getter, a watch callback) is a tree of the
  operations it performs on the engine, each continuing with the value it received:
  \<^verbatim>\<open>obj[k]\<close> is \<open>Get\<close>, \<^verbatim>\<open>obj[k] = v\<close> is \<open>Put\<close>, \<^verbatim>\<open>c.value\<close> is \<open>Value\<close>,
  \<^verbatim>\<open>console.log(v)\<close> is \<open>Log\<close>, \<^verbatim>\<open>throw v\<close> is \<open>Throw\<close>. Branching on what was
  read is branching of the continuation. There is no operation for \<^verbatim>\<open>try\<close>/\<^verbatim>\<open>catch\<close>: a
  user function cannot handle an exception, and a throw inside it ends it.
\<close>

datatype prog =
    Return val
  | Throw val
  | Get key "val \<Rightarrow> prog"
  | Put key val prog
  | Value nat "val \<Rightarrow> prog"
  | Log val prog

text \<open>The three scheduler functions the source passes as \<^verbatim>\<open>options.scheduler\<close>:
  \<^verbatim>\<open>scheduler(fn) { jobQueue.add(fn); flushJob() }\<close>, the scheduler closure of
  \<^verbatim>\<open>computed\<close> and the scheduler closure of \<^verbatim>\<open>watch\<close>.\<close>

datatype scheduler = JobQueueScheduler | ComputedScheduler nat | WatchScheduler nat

text \<open>The function wrapped by a runner: a user function, or the closure
  \<^verbatim>\<open>() => traverse(source)\<close> that \<^verbatim>\<open>watch\<close> builds for a source that is not a function.\<close>

datatype getter = Fn prog | Traverse val

text \<open>A runner \<^verbatim>\<open>effectFn\<close> with the properties the source hangs on it:
  \<^verbatim>\<open>effectFn.options\<close> and \<^verbatim>\<open>effectFn.deps\<close>. A dependency set is owned by one slot
  \<open>(target, key)\<close> of the bucket and is never replaced once created, so a reference to
  the set is the slot.\<close>

record options =
  scheduler :: "scheduler option"
  lazy :: bool

record effect =
  fn :: getter
  options :: options
  deps :: "(target \<times> key) list"

record computed_ref =
  c_value :: val
  dirty :: bool
  c_effect :: eid

record watch_options =
  immediate :: bool
  flush :: "string option"

record watcher =
  cb :: "val \<Rightarrow> val \<Rightarrow> prog"
  w_options :: watch_options
  oldValue :: val
  newValue :: val
  w_effect :: eid

text \<open>The jobs of the host's microtask queue: the callback of \<^verbatim>\<open>p.then\<close> in
  \<^verbatim>\<open>flushJob\<close>, the callback of its \<^verbatim>\<open>.finally\<close> (with the thrown value when the
  flush was rejected), and \<^verbatim>\<open>job\<close> of a watch registered with \<^verbatim>\<open>flush: 'post'\<close>.\<close>

datatype task = FlushTask | FinallyTask "val option" | JobTask nat

text \<open>
  The observation trace. No function of the engine reads it; it records what happened so
  that statements can count it: a runner was entered, \<^verbatim>\<open>track\<close> was called (with the
  active effect at that moment), \<^verbatim>\<open>trigger\<close> was entered, a trigger picked an effect from
  its \<^verbatim>\<open>effectsToRun\<close> (the trigger named by the length of the trace when it started),
  a computed value was read, a watch callback was called, the user logged a value, a
  microtask ended by a throw.
\<close>

datatype event =
    EvRun eid
  | EvTrack target key "eid option"
  | EvTrigger target key
  | EvInvoke nat eid
  | EvValue nat
  | EvCallback nat val val
  | EvLog val
  | EvUnhandled val

record state =
  data :: "(key \<times> val) list"
  bucket :: "target \<Rightarrow> (key \<Rightarrow> eid list option) option"
  activeEffect :: "eid option"
  effectStack :: "eid list"
  effs :: "effect list"
  jobQueue :: "eid list"
  isFlushing :: bool
  comps :: "computed_ref list"
  watches :: "watcher list"
  microtasks :: "task list"
  trace :: "event list"

definition emit :: "event \<Rightarrow> state \<Rightarrow> state" where
  "emit ev s = s\<lparr>trace := trace s @ [ev]\<rparr>"

text \<open>A result is the state left behind together with the value returned (\<open>Inr\<close>) or the
  value thrown (\<open>Inl\<close>); \<open>None\<close> is a computation that did not finish within its fuel.\<close>

type_synonym 'a result = "((val + 'a) \<times> state) option"

definition bind_res :: "'a result \<Rightarrow> ('a \<Rightarrow> state \<Rightarrow> 'b result) \<Rightarrow> 'b result" where
  "bind_res m f =
     (case m of None \<Rightarrow> None
      | Some (Inl e, s) \<Rightarrow> Some (Inl e, s)
      | Some (Inr a, s) \<Rightarrow> f a s)"

definition type_error :: val where
  "type_error = Str ''TypeError''"

section \<open>Sets in insertion order\<close>

text \<open>A JavaScript \<^verbatim>\<open>Set\<close> iterates in insertion order: a list without duplicates.\<close>

definition set_add :: "'a \<Rightarrow> 'a list \<Rightarrow> 'a list" where
  "set_add x xs = (if x \<in> set xs then xs else xs @ [x])"

definition set_delete :: "'a \<Rightarrow> 'a list \<Rightarrow> 'a list" where
  "set_delete x xs = removeAll x xs"

section \<open>track, cleanup, flushJob, traverse\<close>

definition read_data :: "state \<Rightarrow> key \<Rightarrow> val" where
  "read_data s k = (case map_of (data s) k of None \<Rightarrow> Undefined | Some v \<Rightarrow> v)"

fun write_data :: "key \<Rightarrow> val \<Rightarrow> (key \<times> val) list \<Rightarrow> (key \<times> val) list" where
  "write_data k v [] = [(k, v)]"
| "write_data k v (p # ps) = (if fst p = k then (k, v) # ps else p # write_data k v ps)"

definition push_dep :: "target \<times> key \<Rightarrow> effect \<Rightarrow> effect" where
  "push_dep d e = e\<lparr>deps := deps e @ [d]\<rparr>"

definition track :: "target \<Rightarrow> key \<Rightarrow> state \<Rightarrow> state" where
  "track t k s0 =
     (let s = emit (EvTrack t k (activeEffect s0)) s0 in
      case activeEffect s of
        None \<Rightarrow> s
      | Some a \<Rightarrow>
          let depsMap = (case bucket s t of None \<Rightarrow> Map.empty | Some m \<Rightarrow> m);
              ds = (case depsMap k of None \<Rightarrow> [] | Some d \<Rightarrow> d)
          in s\<lparr>bucket := (bucket s)(t \<mapsto> depsMap(k \<mapsto> set_add a ds)),
                effs := (effs s)[a := push_dep (t, k) (effs s ! a)]\<rparr>)"

definition bucket_delete :: "eid \<Rightarrow> target \<times> key \<Rightarrow>
    (target \<Rightarrow> (key \<Rightarrow> eid list option) option) \<Rightarrow> (target \<Rightarrow> (key \<Rightarrow> eid list option) option)" where
  "bucket_delete e d b =
     (case b (fst d) of None \<Rightarrow> b
      | Some m \<Rightarrow> (case m (snd d) of None \<Rightarrow> b
          | Some ds \<Rightarrow> b(fst d \<mapsto> m(snd d \<mapsto> set_delete e ds))))"

definition cleanup :: "eid \<Rightarrow> state \<Rightarrow> state" where
  "cleanup e s =
     s\<lparr>bucket := fold (bucket_delete e) (deps (effs s ! e)) (bucket s),
       effs := (effs s)[e := (effs s ! e)\<lparr>deps := []\<rparr>]\<rparr>"

definition flushJob :: "state \<Rightarrow> state" where
  "flushJob s =
     (if isFlushing s then s
      else s\<lparr>isFlushing := True, microtasks := microtasks s @ [FlushTask]\<rparr>)"

text \<open>
  \<^verbatim>\<open>traverse(value, seen)\<close>: a value that is not an object, or one already seen, returns
  \<^verbatim>\<open>undefined\<close> at once. The only object is the proxy, whose properties hold primitives
  or the proxy itself, so every inner call \<^verbatim>\<open>traverse(value[k], seen)\<close> returns at its
  guard; what remains of the loop is the read \<^verbatim>\<open>value[k]\<close> of every key through the
  proxy's \<^verbatim>\<open>get\<close>, that is, \<^verbatim>\<open>track(data, k)\<close>.
\<close>

definition traverse :: "val \<Rightarrow> val list \<Rightarrow> state \<Rightarrow> val \<times> state" where
  "traverse v seen s =
     (if v \<noteq> Obj \<or> v \<in> set seen then (Undefined, s)
      else (v, fold (\<lambda>k. track Data k) (map fst (data s)) s))"

definition effectsToRun :: "eid list option \<Rightarrow> eid option \<Rightarrow> eid list" where
  "effectsToRun effects active =
     (case effects of None \<Rightarrow> []
      | Some es \<Rightarrow> fold (\<lambda>e acc. if Some e \<noteq> active then set_add e acc else acc) es [])"

definition pop_stack :: "state \<Rightarrow> state" where
  "pop_stack s =
     (let st = butlast (effectStack s)
      in s\<lparr>effectStack := st, activeEffect := (if st = [] then None else Some (last st))\<rparr>)"

definition set_dirty :: "nat \<Rightarrow> bool \<Rightarrow> state \<Rightarrow> state" where
  "set_dirty c b s = s\<lparr>comps := (comps s)[c := (comps s ! c)\<lparr>dirty := b\<rparr>]\<rparr>"

definition set_c_value :: "nat \<Rightarrow> val \<Rightarrow> state \<Rightarrow> state" where
  "set_c_value c v s = s\<lparr>comps := (comps s)[c := (comps s ! c)\<lparr>c_value := v\<rparr>]\<rparr>"

definition set_newValue :: "nat \<Rightarrow> val \<Rightarrow> state \<Rightarrow> state" where
  "set_newValue w v s = s\<lparr>watches := (watches s)[w := (watches s ! w)\<lparr>newValue := v\<rparr>]\<rparr>"

definition set_oldValue :: "nat \<Rightarrow> val \<Rightarrow> state \<Rightarrow> state" where
  "set_oldValue w v s = s\<lparr>watches := (watches s)[w := (watches s ! w)\<lparr>oldValue := v\<rparr>]\<rparr>"

section \<open>The mutually recursive core\<close>

text \<open>
  User functions call the proxy, the proxy calls \<^verbatim>\<open>trigger\<close>, \<^verbatim>\<open>trigger\<close> calls runners
  and schedulers, and these call user functions again. Nothing in the source bounds this
  recursion, so every function takes fuel and spends one unit per call.
  A reference to a runner, a computed handle or a watch that was never created cannot exist
  in the source; the model raises a \<^verbatim>\<open>TypeError\<close> there.
\<close>

function (sequential) run :: "nat \<Rightarrow> prog \<Rightarrow> state \<Rightarrow> val result"
  and computed_value :: "nat \<Rightarrow> nat \<Rightarrow> state \<Rightarrow> val result"
  and trigger :: "nat \<Rightarrow> target \<Rightarrow> key \<Rightarrow> state \<Rightarrow> unit result"
  and run_effects :: "nat \<Rightarrow> nat \<Rightarrow> eid list \<Rightarrow> state \<Rightarrow> unit result"
  and call_scheduler :: "nat \<Rightarrow> scheduler \<Rightarrow> eid \<Rightarrow> state \<Rightarrow> unit result"
  and job :: "nat \<Rightarrow> nat \<Rightarrow> state \<Rightarrow> unit result"
  and effectFn :: "nat \<Rightarrow> eid \<Rightarrow> state \<Rightarrow> val result"
where
  "run 0 p s = None"
| "run (Suc n) (Return v) s = Some (Inr v, s)"
| "run (Suc n) (Throw v) s = Some (Inl v, s)"
| "run (Suc n) (Get k f) s = run n (f (read_data s k)) (track Data k s)"
| "run (Suc n) (Put k v p) s =
     bind_res (trigger n Data k (s\<lparr>data := write_data k v (data s)\<rparr>)) (\<lambda>_. run n p)"
| "run (Suc n) (Value c f) s = bind_res (computed_value n c s) (\<lambda>v. run n (f v))"
| "run (Suc n) (Log v p) s = run n p (emit (EvLog v) s)"

| "computed_value 0 c s = None"
| "computed_value (Suc n) c s0 =
     (let s = emit (EvValue c) s0 in
      if \<not> c < length (comps s) then Some (Inl type_error, s)
      else
        bind_res
          (if dirty (comps s ! c)
           then bind_res (effectFn n (c_effect (comps s ! c)) s)
                  (\<lambda>v s1. Some (Inr (), set_dirty c False (set_c_value c v s1)))
           else Some (Inr (), s))
          (\<lambda>_ s2. let s3 = track (Handle c) ''value'' s2
                   in Some (Inr (c_value (comps s3 ! c)), s3)))"

| "trigger 0 t k s = None"
| "trigger (Suc n) t k s =
     (case bucket s t of
        None \<Rightarrow> Some (Inr (), emit (EvTrigger t k) s)
      | Some depsMap \<Rightarrow>
          run_effects n (length (trace s)) (effectsToRun (depsMap k) (activeEffect s))
            (emit (EvTrigger t k) s))"

| "run_effects 0 tid es s = None"
| "run_effects (Suc n) tid [] s = Some (Inr (), s)"
| "run_effects (Suc n) tid (e # es) s0 =
     (let s = emit (EvInvoke tid e) s0 in
      bind_res
        (if \<not> e < length (effs s) then Some (Inl type_error, s)
         else case scheduler (options (effs s ! e)) of
                Some sch \<Rightarrow> call_scheduler n sch e s
              | None \<Rightarrow> bind_res (effectFn n e s) (\<lambda>_ s1. Some (Inr (), s1)))
        (\<lambda>_. run_effects n tid es))"

| "call_scheduler 0 sch e s = None"
| "call_scheduler (Suc n) JobQueueScheduler e s =
     Some (Inr (), flushJob (s\<lparr>jobQueue := set_add e (jobQueue s)\<rparr>))"
| "call_scheduler (Suc n) (ComputedScheduler c) e s =
     (if \<not> c < length (comps s) then Some (Inl type_error, s)
      else if \<not> dirty (comps s ! c) then trigger n (Handle c) ''value'' (set_dirty c True s)
      else Some (Inr (), s))"
| "call_scheduler (Suc n) (WatchScheduler w) e s =
     (if \<not> w < length (watches s) then Some (Inl type_error, s)
      else if flush (w_options (watches s ! w)) = Some ''post''
      then Some (Inr (), s\<lparr>microtasks := microtasks s @ [JobTask w]\<rparr>)
      else job n w s)"

| "job 0 w s = None"
| "job (Suc n) w s =
     (if \<not> w < length (watches s) then Some (Inl type_error, s)
      else
        bind_res (effectFn n (w_effect (watches s ! w)) s)
          (\<lambda>v s1.
             let s2 = set_newValue w v s1;
                 nv = newValue (watches s2 ! w);
                 ov = oldValue (watches s2 ! w)
             in bind_res (run n (cb (watches s2 ! w) nv ov) (emit (EvCallback w nv ov) s2))
                  (\<lambda>_ s3. Some (Inr (), set_oldValue w (newValue (watches s3 ! w)) s3))))"

| "effectFn 0 e s = None"
| "effectFn (Suc n) e s0 =
     (if \<not> e < length (effs s0) then Some (Inl type_error, s0)
      else
        let s1 = cleanup e (emit (EvRun e) s0);
            s2 = s1\<lparr>activeEffect := Some e, effectStack := effectStack s1 @ [e]\<rparr>
        in bind_res
             (case fn (effs s2 ! e) of
                Fn p \<Rightarrow> run n p s2
              | Traverse v \<Rightarrow> (case traverse v [] s2 of (r, s3) \<Rightarrow> Some (Inr r, s3)))
             (\<lambda>res s3. Some (Inr res, pop_stack s3)))"
  by pat_completeness auto

termination
  by (relation "measure (case_sum (case_sum fst (case_sum fst fst))
        (case_sum (case_sum fst fst) (case_sum fst fst)))") auto

section \<open>The microtask queue\<close>

text \<open>
  \<^verbatim>\<open>jobQueue.forEach((job) => job())\<close> walks the live set: a job added while the walk is
  under way is visited too, and nothing is ever deleted from \<^verbatim>\<open>jobQueue\<close>, so the walk
  is by position until the end of the list.
\<close>

fun flush_jobs :: "nat \<Rightarrow> nat \<Rightarrow> state \<Rightarrow> unit result" where
  "flush_jobs 0 i s = None"
| "flush_jobs (Suc n) i s =
     (if i < length (jobQueue s)
      then bind_res (effectFn n (jobQueue s ! i) s) (\<lambda>_. flush_jobs n (Suc i))
      else Some (Inr (), s))"

text \<open>
  One microtask. The promise made by \<^verbatim>\<open>p.then\<close> in \<^verbatim>\<open>flushJob\<close> settles when the walk
  ends or throws, and only then is its \<^verbatim>\<open>.finally\<close> callback queued. A throw inside a
  microtask rejects a promise nobody handles.
\<close>

definition run_task :: "nat \<Rightarrow> task \<Rightarrow> state \<Rightarrow> state option" where
  "run_task n t s =
     (case t of
        FlushTask \<Rightarrow>
          (case flush_jobs n 0 s of
             None \<Rightarrow> None
           | Some (Inl x, s') \<Rightarrow> Some (s'\<lparr>microtasks := microtasks s' @ [FinallyTask (Some x)]\<rparr>)
           | Some (Inr _, s') \<Rightarrow> Some (s'\<lparr>microtasks := microtasks s' @ [FinallyTask None]\<rparr>))
      | FinallyTask r \<Rightarrow>
          (case r of
             None \<Rightarrow> Some (s\<lparr>isFlushing := False\<rparr>)
           | Some x \<Rightarrow> Some (emit (EvUnhandled x) (s\<lparr>isFlushing := False\<rparr>)))
      | JobTask w \<Rightarrow>
          (case job n w s of
             None \<Rightarrow> None
           | Some (Inl x, s') \<Rightarrow> Some (emit (EvUnhandled x) s')
           | Some (Inr _, s') \<Rightarrow> Some s'))"

fun run_microtasks :: "nat \<Rightarrow> state \<Rightarrow> state option" where
  "run_microtasks 0 s = None"
| "run_microtasks (Suc n) s =
     (case microtasks s of
        [] \<Rightarrow> Some s
      | t # ts \<Rightarrow>
          (case run_task n t (s\<lparr>microtasks := ts\<rparr>) of
             None \<Rightarrow> None
           | Some s' \<Rightarrow> run_microtasks n s'))"

section \<open>effect, computed, watch\<close>

definition effect :: "nat \<Rightarrow> getter \<Rightarrow> options \<Rightarrow> state \<Rightarrow> eid result" where
  "effect n f opts s =
     (let e = length (effs s);
          s1 = s\<lparr>effs := effs s @ [\<lparr>fn = f, options = opts, deps = []\<rparr>]\<rparr>
      in if \<not> lazy opts then bind_res (effectFn n e s1) (\<lambda>_ s2. Some (Inr e, s2))
         else Some (Inr e, s1))"

definition computed :: "nat \<Rightarrow> prog \<Rightarrow> state \<Rightarrow> nat result" where
  "computed n g s =
     (let c = length (comps s)
      in bind_res (effect n (Fn g) \<lparr>scheduler = Some (ComputedScheduler c), lazy = True\<rparr> s)
           (\<lambda>e s1. Some (Inr c,
              s1\<lparr>comps := comps s1 @ [\<lparr>c_value = Undefined, dirty = True, c_effect = e\<rparr>]\<rparr>)))"

datatype source = Function prog | Plain val


text \<open>The state of the module once its declarations have run, before any call.\<close>

definition init :: "(key \<times> val) list \<Rightarrow> state" where
  "init d = \<lparr>data = d, bucket = (\<lambda>_. None), activeEffect = None, effectStack = [],
     effs = [], jobQueue = [], isFlushing = False, comps = [], watches = [],
     microtasks = [], trace = []\<rparr>"

section \<open>Notions used in the statements\<close>

definition enter :: "eid \<Rightarrow> state \<Rightarrow> state" where
  "enter e s = (cleanup e (emit (EvRun e) s))
     \<lparr>activeEffect := Some e, effectStack := effectStack (cleanup e (emit (EvRun e) s)) @ [e]\<rparr>"

definition normal :: "val + 'a \<Rightarrow> bool" where
  "normal r = (case r of Inl _ \<Rightarrow> False | Inr _ \<Rightarrow> True)"

definition same_shape :: "state \<Rightarrow> state \<Rightarrow> bool" where
  "same_shape s s' \<longleftrightarrow>
     map fn (effs s') = map fn (effs s) \<and> map options (effs s') = map options (effs s) \<and>
     map c_effect (comps s') = map c_effect (comps s) \<and>
     map cb (watches s') = map cb (watches s) \<and>
     map w_options (watches s') = map w_options (watches s) \<and>
     map w_effect (watches s') = map w_effect (watches s)"

text \<open>
  Three relations between the state before and the state after a computation, each with a
  flag (the computation returned, or threw): \<open>P\<close> for user functions, runners, schedulers,
  jobs and computed reads, \<open>T t k\<close> for \<^verbatim>\<open>trigger(t, k)\<close>, \<open>Q tid es\<close> for the walk of
  trigger \<open>tid\<close> over the effects \<open>es\<close> it still has to run. When they contain every
  elementary step of the engine and compose as the code composes them, they hold of every
  computation (\<open>engine_induct\<close> below).
\<close>

definition plain_event :: "event \<Rightarrow> bool" where
  "plain_event ev = (case ev of EvLog _ \<Rightarrow> True | EvValue _ \<Rightarrow> True | EvCallback _ _ _ \<Rightarrow> True | _ \<Rightarrow> False)"

definition engine_closed ::
  "(bool \<Rightarrow> state \<Rightarrow> state \<Rightarrow> bool) \<Rightarrow> (target \<Rightarrow> key \<Rightarrow> bool \<Rightarrow> state \<Rightarrow> state \<Rightarrow> bool) \<Rightarrow>
   (nat \<Rightarrow> eid list \<Rightarrow> bool \<Rightarrow> state \<Rightarrow> state \<Rightarrow> bool) \<Rightarrow> bool" where
  "engine_closed P T Q \<longleftrightarrow>
     (\<forall>b s. P b s s) \<and>
     (\<forall>b s s1 s2. P True s s1 \<longrightarrow> P b s1 s2 \<longrightarrow> P b s s2) \<and>
     (\<forall>s ev. plain_event ev \<longrightarrow> P True s (emit ev s)) \<and>
     (\<forall>s t k. P True s (track t k s)) \<and>
     (\<forall>s k v. P True s (s\<lparr>data := write_data k v (data s)\<rparr>)) \<and>
     (\<forall>b s e s3. e < length (effs s) \<longrightarrow> P b (enter e s) s3 \<longrightarrow>
        P b s (if b then pop_stack s3 else s3)) \<and>
     (\<forall>s s1 c v. c < length (comps s) \<longrightarrow> dirty (comps s ! c) \<longrightarrow>
        P True (emit (EvValue c) s) s1 \<longrightarrow>
        P True s (track (Handle c) ''value'' (set_dirty c False (set_c_value c v s1)))) \<and>
     (\<forall>s w v. P True s (set_newValue w v s)) \<and>
     (\<forall>s w v. P True s (set_oldValue w v s)) \<and>
     (\<forall>s e. e < length (effs s) \<longrightarrow> scheduler (options (effs s ! e)) = Some JobQueueScheduler \<longrightarrow>
        P True s (flushJob (s\<lparr>jobQueue := set_add e (jobQueue s)\<rparr>))) \<and>
     (\<forall>s w. w < length (watches s) \<longrightarrow> P True s (s\<lparr>microtasks := microtasks s @ [JobTask w]\<rparr>)) \<and>
     (\<forall>b s s' k. T Data k b s s' \<longrightarrow> P b s s') \<and>
     (\<forall>b s s' c. c < length (comps s) \<longrightarrow> \<not> dirty (comps s ! c) \<longrightarrow>
        T (Handle c) ''value'' b (set_dirty c True s) s' \<longrightarrow> P b s s') \<and>
     (\<forall>s t k. bucket s t = None \<longrightarrow> T t k True s (emit (EvTrigger t k) s)) \<and>
     (\<forall>b s s' t k m. bucket s t = Some m \<longrightarrow>
        Q (length (trace s)) (effectsToRun (m k) (activeEffect s)) b (emit (EvTrigger t k) s) s' \<longrightarrow>
        T t k b s s') \<and>
     (\<forall>s tid. Q tid [] True s s) \<and>
     (\<forall>s tid e es. \<not> e < length (effs s) \<longrightarrow> Q tid (e # es) False s (emit (EvInvoke tid e) s)) \<and>
     (\<forall>s s' tid e es. e < length (effs s) \<longrightarrow> P False (emit (EvInvoke tid e) s) s' \<longrightarrow>
        Q tid (e # es) False s s') \<and>
     (\<forall>b s s1 s' tid e es. e < length (effs s) \<longrightarrow> P True (emit (EvInvoke tid e) s) s1 \<longrightarrow>
        Q tid es b s1 s' \<longrightarrow> Q tid (e # es) b s s')"

definition subs_of :: "(target \<Rightarrow> (key \<Rightarrow> eid list option) option) \<Rightarrow> target \<Rightarrow> key \<Rightarrow> eid list" where
  "subs_of b t k = (case b t of None \<Rightarrow> [] | Some m \<Rightarrow> (case m k of None \<Rightarrow> [] | Some ds \<Rightarrow> ds))"

definition subscribers :: "state \<Rightarrow> target \<Rightarrow> key \<Rightarrow> eid list" where
  "subscribers s t k = subs_of (bucket s) t k"

definition trace_extends :: "state \<Rightarrow> state \<Rightarrow> bool" where
  "trace_extends s s' \<longleftrightarrow> prefix (trace s) (trace s')"


text \<open>The flagged relation of a plain one, and what a plain relation must contain.\<close>

definition step_closed :: "(state \<Rightarrow> state \<Rightarrow> bool) \<Rightarrow> bool" where
  "step_closed R \<longleftrightarrow>
     (\<forall>s. R s s) \<and>
     (\<forall>s s1 s2. R s s1 \<longrightarrow> R s1 s2 \<longrightarrow> R s s2) \<and>
     (\<forall>s ev. R s (emit ev s)) \<and>
     (\<forall>s t k. R s (track t k s)) \<and>
     (\<forall>s k v. R s (s\<lparr>data := write_data k v (data s)\<rparr>)) \<and>
     (\<forall>s e. e < length (effs s) \<longrightarrow> R s (enter e s)) \<and>
     (\<forall>s. R s (pop_stack s)) \<and>
     (\<forall>s c b. R s (set_dirty c b s)) \<and>
     (\<forall>s c v. R s (set_c_value c v s)) \<and>
     (\<forall>s w v. R s (set_newValue w v s)) \<and>
     (\<forall>s w v. R s (set_oldValue w v s)) \<and>
     (\<forall>s e. e < length (effs s) \<longrightarrow> scheduler (options (effs s ! e)) = Some JobQueueScheduler \<longrightarrow>
        R s (flushJob (s\<lparr>jobQueue := set_add e (jobQueue s)\<rparr>))) \<and>
     (\<forall>s w. w < length (watches s) \<longrightarrow> R s (s\<lparr>microtasks := microtasks s @ [JobTask w]\<rparr>))"

text \<open>Well-formed states: every member of a dependency set is a runner that lists the set
  in its \<^verbatim>\<open>deps\<close>; the active effect and the effects on the stack are runners.\<close>

definition well_formed :: "state \<Rightarrow> bool" where
  "well_formed s \<longleftrightarrow>
     (\<forall>t k e. e \<in> set (subscribers s t k) \<longrightarrow>
        e < length (effs s) \<and> (t, k) \<in> set (deps (effs s ! e))) \<and>
     (\<forall>a. activeEffect s = Some a \<longrightarrow> a < length (effs s)) \<and>
     (\<forall>e \<in> set (effectStack s). e < length (effs s))"

definition keeps_well_formed :: "state \<Rightarrow> state \<Rightarrow> bool" where
  "keeps_well_formed s s' \<longleftrightarrow> (well_formed s \<longrightarrow> well_formed s')"

text \<open>An effect enters a dependency set only through \<^verbatim>\<open>track\<close> called while it is the
  active effect.\<close>

definition joins_by_track :: "state \<Rightarrow> state \<Rightarrow> bool" where
  "joins_by_track s s' \<longleftrightarrow>
     (\<exists>evs. trace s' = trace s @ evs \<and>
        (\<forall>e t k. e \<in> set (subscribers s' t k) \<longrightarrow>
           e \<in> set (subscribers s t k) \<or> EvTrack t k (Some e) \<in> set evs))"

definition act_top :: "state \<Rightarrow> bool" where
  "act_top s \<longleftrightarrow>
     activeEffect s = (if effectStack s = [] then None else Some (last (effectStack s)))"

definition stack_rel :: "bool \<Rightarrow> state \<Rightarrow> state \<Rightarrow> bool" where
  "stack_rel b s s' \<longleftrightarrow>
     prefix (effectStack s) (effectStack s') \<and>
     (b \<longrightarrow> effectStack s' = effectStack s) \<and>
     (act_top s \<longrightarrow> act_top s')"

text \<open>The effects a trigger picked, read off a stretch of the trace: the trigger is named
  by the length of the trace when it was entered.\<close>

fun invoked_by :: "nat \<Rightarrow> event list \<Rightarrow> eid list" where
  "invoked_by tid [] = []"
| "invoked_by tid (ev # evs) =
     (case ev of
        EvInvoke i e \<Rightarrow> (if i = tid then e # invoked_by tid evs else invoked_by tid evs)
      | _ \<Rightarrow> invoked_by tid evs)"

definition later_invokes :: "nat \<Rightarrow> event list \<Rightarrow> bool" where
  "later_invokes b evs \<longleftrightarrow> (\<forall>i e. EvInvoke i e \<in> set evs \<longrightarrow> b \<le> i)"

definition new_events :: "state \<Rightarrow> state \<Rightarrow> event list" where
  "new_events s s' = drop (length (trace s)) (trace s')"

text \<open>The set \<^verbatim>\<open>effectsToRun\<close> that \<^verbatim>\<open>trigger(t, k)\<close> builds when entered in state \<open>s\<close>.\<close>

definition snapshot :: "state \<Rightarrow> target \<Rightarrow> key \<Rightarrow> eid list" where
  "snapshot s t k =
     effectsToRun (case bucket s t of None \<Rightarrow> None | Some m \<Rightarrow> m k) (activeEffect s)"

definition run_rel :: "bool \<Rightarrow> state \<Rightarrow> state \<Rightarrow> bool" where
  "run_rel b s s' \<longleftrightarrow> (\<exists>evs. trace s' = trace s @ evs \<and> later_invokes (length (trace s)) evs)"

definition trigger_rel :: "target \<Rightarrow> key \<Rightarrow> bool \<Rightarrow> state \<Rightarrow> state \<Rightarrow> bool" where
  "trigger_rel t k b s s' \<longleftrightarrow>
     (\<exists>evs. trace s' = trace s @ evs \<and> later_invokes (length (trace s)) evs \<and>
        prefix (invoked_by (length (trace s)) evs) (snapshot s t k) \<and>
        (b \<longrightarrow> invoked_by (length (trace s)) evs = snapshot s t k))"

definition walk_rel :: "nat \<Rightarrow> eid list \<Rightarrow> bool \<Rightarrow> state \<Rightarrow> state \<Rightarrow> bool" where
  "walk_rel tid es b s s' \<longleftrightarrow>
     (tid < length (trace s) \<longrightarrow>
       (\<exists>evs. trace s' = trace s @ evs \<and>
          (\<forall>i e. EvInvoke i e \<in> set evs \<longrightarrow> length (trace s) \<le> i \<or> i = tid) \<and>
          prefix (invoked_by tid evs) es \<and>
          (b \<longrightarrow> invoked_by tid evs = es)))"


definition state_of :: "'a result \<Rightarrow> state" where
  "state_of x = (case x of Some (_, s) \<Rightarrow> s | None \<Rightarrow> init [])"

definition returns :: "'a result \<Rightarrow> bool" where
  "returns x = (case x of Some (Inr _, _) \<Rightarrow> True | _ \<Rightarrow> False)"

definition throws :: "'a result \<Rightarrow> bool" where
  "throws x = (case x of Some (Inl _, _) \<Rightarrow> True | _ \<Rightarrow> False)"

definition plain_options :: options where
  "plain_options = \<lparr>scheduler = None, lazy = False\<rparr>"


text \<open>The effect of the branch example: \<^verbatim>\<open>obj.ok ? obj.text : 'not'\<close>, registered with
  \<^verbatim>\<open>ok\<close> true; then the state in which \<^verbatim>\<open>ok\<close> has been set to false.\<close>

definition branch_fn :: prog where
  "branch_fn = Get ''ok'' (\<lambda>v. if v = Bool True then Get ''text'' Return else Return (Str ''not''))"

definition branch_state :: state where
  "branch_state =
     state_of (effect 6 (Fn branch_fn) plain_options
       (init [(''ok'', Bool True), (''text'', Str ''hello'')]))"

definition branch_off :: state where
  "branch_off = branch_state\<lparr>data := write_data ''ok'' (Bool False) (data branch_state)\<rparr>"



definition throwing_effect :: state where
  "throwing_effect =
     state_of (effect 3 (Fn (Throw (Str ''boom''))) \<lparr>scheduler = None, lazy = True\<rparr> (init []))"





definition writes_and_callbacks :: "event list \<Rightarrow> event list" where
  "writes_and_callbacks evs =
     filter (\<lambda>ev. case ev of EvTrigger _ _ \<Rightarrow> True | EvCallback _ _ _ \<Rightarrow> True | _ \<Rightarrow> False) evs"

text \<open>Two effects with the batching scheduler of the source, one reading \<^verbatim>\<open>obj.foo\<close>, one
  reading \<^verbatim>\<open>obj.bar\<close>; a first tick writes \<^verbatim>\<open>foo\<close>, a second tick writes \<^verbatim>\<open>bar\<close>.\<close>

definition queue_options :: options where
  "queue_options = \<lparr>scheduler = Some JobQueueScheduler, lazy = False\<rparr>"

definition log_of :: "key \<Rightarrow> prog" where
  "log_of k = Get k (\<lambda>v. Log v (Return Undefined))"


definition two_batched :: state where
  "two_batched =
     state_of (effect 5 (Fn (log_of ''bar'')) queue_options
       (state_of (effect 5 (Fn (log_of ''foo'')) queue_options
          (init [(''foo'', Num 1), (''bar'', Num 2)]))))"






text \<open>How often \<^verbatim>\<open>trigger(handle, 'value')\<close> of computed handle \<open>c\<close> was entered in a stretch
  of the trace, and whether \<open>c\<close> is dirty.\<close>

definition ntrig :: "nat \<Rightarrow> event list \<Rightarrow> nat" where
  "ntrig c evs = length (filter (\<lambda>ev. ev = EvTrigger (Handle c) ''value'') evs)"

definition dirty_of :: "nat \<Rightarrow> state \<Rightarrow> bool" where
  "dirty_of c s \<longleftrightarrow> c < length (comps s) \<and> dirty (comps s ! c)"






text \<open>User functions that only read properties, log and return: they trigger nothing and
  cannot throw. For such a function: the value it returns on given data, the number of
  operations it performs, and the state it leaves.\<close>

primrec quiet :: "prog \<Rightarrow> bool" where
  "quiet (Return v) = True"
| "quiet (Throw v) = False"
| "quiet (Get k f) = (\<forall>v. quiet (f v))"
| "quiet (Put k v p) = False"
| "quiet (Value c f) = False"
| "quiet (Log v p) = quiet p"

definition lookup :: "(key \<times> val) list \<Rightarrow> key \<Rightarrow> val" where
  "lookup d k = (case map_of d k of None \<Rightarrow> Undefined | Some v \<Rightarrow> v)"

primrec result_of :: "prog \<Rightarrow> (key \<times> val) list \<Rightarrow> val" where
  "result_of (Return v) d = v"
| "result_of (Throw v) d = Undefined"
| "result_of (Get k f) d = result_of (f (lookup d k)) d"
| "result_of (Put k v p) d = Undefined"
| "result_of (Value c f) d = Undefined"
| "result_of (Log v p) d = result_of p d"

primrec depth :: "prog \<Rightarrow> (key \<times> val) list \<Rightarrow> nat" where
  "depth (Return v) d = 0"
| "depth (Throw v) d = 0"
| "depth (Get k f) d = Suc (depth (f (lookup d k)) d)"
| "depth (Put k v p) d = 0"
| "depth (Value c f) d = 0"
| "depth (Log v p) d = Suc (depth p d)"

primrec quiet_run :: "prog \<Rightarrow> state \<Rightarrow> state" where
  "quiet_run (Return v) s = s"
| "quiet_run (Throw v) s = s"
| "quiet_run (Get k f) s = quiet_run (f (lookup (data s) k)) (track Data k s)"
| "quiet_run (Put k v p) s = s"
| "quiet_run (Value c f) s = s"
| "quiet_run (Log v p) s = quiet_run p (emit (EvLog v) s)"

primrec quiet_trace :: "prog \<Rightarrow> (key \<times> val) list \<Rightarrow> eid option \<Rightarrow> event list" where
  "quiet_trace (Return v) d a = []"
| "quiet_trace (Throw v) d a = []"
| "quiet_trace (Get k f) d a = EvTrack Data k a # quiet_trace (f (lookup d k)) d a"
| "quiet_trace (Put k v p) d a = []"
| "quiet_trace (Value c f) d a = []"
| "quiet_trace (Log v p) d a = EvLog v # quiet_trace p d a"

text \<open>The example of a stale read: a computed value over \<^verbatim>\<open>obj.foo\<close>, and an effect that
  reads \<^verbatim>\<open>obj.foo\<close> and then logs the computed value; then the state in which the proxy
  has stored \<^verbatim>\<open>foo = 5\<close> and \<^verbatim>\<open>trigger\<close> has not yet reached the scheduler of the
  computed value.\<close>

definition foo_then_computed :: prog where
  "foo_then_computed = Get ''foo'' (\<lambda>_. Value 0 (\<lambda>v. Log v (Return Undefined)))"

definition stale_reader :: state where
  "stale_reader =
     state_of (effect 9 (Fn foo_then_computed) plain_options
       (state_of (computed 1 (Get ''foo'' Return) (init [(''foo'', Num 1)]))))"

definition stale_moment :: state where
  "stale_moment = stale_reader\<lparr>data := write_data ''foo'' (Num 5) (data stale_reader)\<rparr>"

definition fresh_computed :: state where
  "fresh_computed = state_of (computed 1 (Get ''foo'' Return) (init [(''foo'', Num 1)]))"

definition logged :: "event list \<Rightarrow> val list" where
  "logged evs = concat (map (\<lambda>ev. case ev of EvLog v \<Rightarrow> [v] | _ \<Rightarrow> []) evs)"

text \<open>What a stretch of the trace says about callbacks and runner entries.\<close>

definition callbacks :: "event list \<Rightarrow> (nat \<times> val \<times> val) list" where
  "callbacks evs = concat (map (\<lambda>ev. case ev of EvCallback w a b \<Rightarrow> [(w, a, b)] | _ \<Rightarrow> []) evs)"

definition runs :: "event list \<Rightarrow> eid list" where
  "runs evs = concat (map (\<lambda>ev. case ev of EvRun e \<Rightarrow> [e] | _ \<Rightarrow> []) evs)"


definition getter_of :: "source \<Rightarrow> getter" where
  "getter_of src = (case src of Function p \<Rightarrow> Fn p | Plain v \<Rightarrow> Traverse v)"



definition source_trace :: "source \<Rightarrow> (key \<times> val) list \<Rightarrow> eid option \<Rightarrow> event list" where
  "source_trace src d a =
     (case src of Function g \<Rightarrow> quiet_trace g d a
      | Plain v \<Rightarrow> (if v = Obj then map (\<lambda>k. EvTrack Data k a) (map fst d) else []))"

definition source_run :: "source \<Rightarrow> state \<Rightarrow> state" where
  "source_run src s =
     (case src of Function g \<Rightarrow> quiet_run g s | Plain v \<Rightarrow> snd (traverse v [] s))"

text \<open>The state \<^verbatim>\<open>watch\<close> has built before it runs anything: the lazy effect over the
  getter and the closure variables of the registration. The fuel that is enough for the
  registration.\<close>

definition watch_registered :: "source \<Rightarrow> (val \<Rightarrow> val \<Rightarrow> prog) \<Rightarrow> watch_options \<Rightarrow> state \<Rightarrow> state" where
  "watch_registered src f opts s =
     s\<lparr>effs := effs s @ [\<lparr>fn = getter_of src,
                 options = \<lparr>scheduler = Some (WatchScheduler (length (watches s))), lazy = True\<rparr>,
                 deps = []\<rparr>],
       watches := watches s @ [\<lparr>cb = f, w_options = opts, oldValue = Undefined,
                 newValue = Undefined, w_effect = length (effs s)\<rparr>]\<rparr>"




text \<open>Several writes to one property in one synchronous stretch, and what one such write
  does to the state when the only subscriber \<open>E\<close> of the property has the batching
  scheduler: the trigger picks \<open>E\<close>, the scheduler adds it to the queue and calls
  \<^verbatim>\<open>flushJob\<close>.\<close>

definition writes :: "key \<Rightarrow> val list \<Rightarrow> prog" where
  "writes k vs = foldr (Put k) vs (Return Undefined)"

definition write_step :: "key \<Rightarrow> eid \<Rightarrow> val \<Rightarrow> state \<Rightarrow> state" where
  "write_step k E v s =
     flushJob ((emit (EvInvoke (length (trace s)) E)
                 (emit (EvTrigger Data k) (s\<lparr>data := write_data k v (data s)\<rparr>)))
               \<lparr>jobQueue := set_add E (jobQueue s)\<rparr>)"

definition batched :: "key \<Rightarrow> eid \<Rightarrow> prog \<Rightarrow> state \<Rightarrow> bool" where
  "batched k E g s \<longleftrightarrow>
     subscribers s Data k = [E] \<and> activeEffect s \<noteq> Some E \<and> E < length (effs s) \<and>
     fn (effs s ! E) = Fn g \<and> quiet g \<and>
     scheduler (options (effs s ! E)) = Some JobQueueScheduler \<and>
     \<not> isFlushing s \<and> microtasks s = [] \<and> (jobQueue s = [] \<or> jobQueue s = [E])"

text \<open>The effects that a stretch of the trace shows picked by a trigger.\<close>

definition invokes :: "event list \<Rightarrow> eid list" where
  "invokes evs = concat (map (\<lambda>ev. case ev of EvInvoke tid e \<Rightarrow> [e] | _ \<Rightarrow> []) evs)"

text \<open>One effect with the batching scheduler that logs \<^verbatim>\<open>obj.foo\<close>.\<close>

definition batched_foo :: state where
  "batched_foo =
     state_of (effect 5 (Fn (log_of ''foo'')) queue_options (init [(''foo'', Num 1)]))"

text \<open>The microtask queued by \<^verbatim>\<open>flushJob\<close> walks a queue that holds one effect whose function
  only reads, logs and returns; the \<^verbatim>\<open>.finally\<close> callback then clears the flag.\<close>

definition flushed :: "eid \<Rightarrow> prog \<Rightarrow> state \<Rightarrow> state" where
  "flushed E g s =
     (pop_stack (quiet_run g (enter E (s\<lparr>microtasks := []\<rparr>))))\<lparr>microtasks := [], isFlushing := False\<rparr>"

text \<open>An effect that reads \<^verbatim>\<open>obj.a\<close> and throws while \<^verbatim>\<open>a\<close> is 0, registered with \<^verbatim>\<open>a\<close> at 0:
  the registration throws. Then an effect that writes \<^verbatim>\<open>obj.a = 1\<close> is registered, which
  re-runs the first one to its end; then \<^verbatim>\<open>obj.k\<close> is read outside any effect function; then
  an effect that writes \<^verbatim>\<open>obj.k = 7\<close> is registered.\<close>

definition guarded_reader :: prog where
  "guarded_reader = Get ''a'' (\<lambda>v. if v = Num 0 then Throw (Str ''boom'') else Return Undefined)"

definition thrown_once :: state where
  "thrown_once =
     state_of (effect 5 (Fn guarded_reader) plain_options (init [(''a'', Num 0), (''k'', Num 2)]))"

definition rerun_by_writer :: state where
  "rerun_by_writer =
     state_of (effect 9 (Fn (Put ''a'' (Num 1) (Return Undefined))) plain_options thrown_once)"

definition read_outside :: state where
  "read_outside = state_of (run 3 (Get ''k'' Return) rerun_by_writer)"

definition written_by_other :: state where
  "written_by_other =
     state_of (effect 9 (Fn (Put ''k'' (Num 7) (Return Undefined))) plain_options read_outside)"






text \<open>Two effects with the batching scheduler: the first reads \<^verbatim>\<open>obj.x\<close> and throws unless it
  is 0, the second logs \<^verbatim>\<open>obj.foo\<close>. One tick writes \<^verbatim>\<open>x\<close> and \<^verbatim>\<open>foo\<close>; then the microtasks
  run.\<close>

definition guarded_x :: prog where
  "guarded_x = Get ''x'' (\<lambda>v. if v = Num 0 then Return Undefined else Throw (Str ''boom''))"

definition thrower_queued :: state where
  "thrower_queued =
     state_of (effect 5 (Fn (log_of ''foo'')) queue_options
       (state_of (effect 5 (Fn guarded_x) queue_options (init [(''x'', Num 0), (''foo'', Num 1)]))))"

definition thrower_tick :: state where
  "thrower_tick =
     state_of (run 12 (Put ''x'' (Num 1) (Put ''foo'' (Num 2) (Return Undefined))) thrower_queued)"

definition thrower_flushed :: state where
  "thrower_flushed = (case run_microtasks 12 thrower_tick of Some s \<Rightarrow> s | None \<Rightarrow> init [])"

text \<open>A watch over the container: the run of its getter, which reads every property, and the
  run of its job when the callback only reads, logs and returns.\<close>

definition getter_run :: "eid \<Rightarrow> state \<Rightarrow> state" where
  "getter_run e s = pop_stack (fold (\<lambda>k. track Data k) (map fst (data s)) (enter e s))"

definition job_run :: "nat \<Rightarrow> state \<Rightarrow> state" where
  "job_run w s =
     (let ov = oldValue (watches s ! w);
          s1 = set_newValue w Obj (getter_run (w_effect (watches s ! w)) s);
          s2 = quiet_run (cb (watches s ! w) Obj ov) (emit (EvCallback w Obj ov) s1)
      in set_oldValue w Obj s2)"

text \<open>A state at rest in which watcher \<open>w\<close> observes the container: its getter's effect is
  the only subscriber of every property, and its callback only reads, logs and returns. The
  state a write has reached when \<^verbatim>\<open>trigger\<close> has picked effect \<open>e\<close>.\<close>

definition watching :: "nat \<Rightarrow> state \<Rightarrow> bool" where
  "watching w s \<longleftrightarrow>
     w < length (watches s) \<and> w_effect (watches s ! w) < length (effs s) \<and>
     fn (effs s ! w_effect (watches s ! w)) = Traverse Obj \<and>
     scheduler (options (effs s ! w_effect (watches s ! w))) = Some (WatchScheduler w) \<and>
     (\<forall>a b. quiet (cb (watches s ! w) a b)) \<and>
     activeEffect s = None \<and> effectStack s = [] \<and>
     (\<forall>k \<in> fst ` set (data s).
        subscribers s Data k = [w_effect (watches s ! w)] \<and>
        (Data, k) \<in> set (deps (effs s ! w_effect (watches s ! w))))"

definition triggered :: "key \<Rightarrow> val \<Rightarrow> eid \<Rightarrow> state \<Rightarrow> state" where
  "triggered k v e s =
     emit (EvInvoke (length (trace s)) e)
       (emit (EvTrigger Data k) (s\<lparr>data := write_data k v (data s)\<rparr>))"


text \<open>An effect registered with the batching scheduler that is not the inner effect of a
  computed value or of a watcher: only a trigger and the walk of the queue can reach it.\<close>

definition batching :: "eid \<Rightarrow> state \<Rightarrow> bool" where
  "batching E s \<longleftrightarrow>
     E < length (effs s) \<and> scheduler (options (effs s ! E)) = Some JobQueueScheduler \<and>
     E \<notin> set (map c_effect (comps s)) \<and> E \<notin> set (map w_effect (watches s))"

text \<open>The number of flush microtasks that are pending, plus one if the next \<^verbatim>\<open>flushJob\<close>
  would queue one. What every step of the engine keeps.\<close>

definition flush_budget :: "state \<Rightarrow> nat" where
  "flush_budget s = count_list (microtasks s) FlushTask + (if isFlushing s then 0 else 1)"

definition kept :: "state \<Rightarrow> state \<Rightarrow> bool" where
  "kept s s' \<longleftrightarrow>
     same_shape s s' \<and> prefix (jobQueue s) (jobQueue s') \<and>
     (distinct (jobQueue s) \<longrightarrow> distinct (jobQueue s')) \<and>
     (isFlushing s \<longrightarrow> isFlushing s') \<and> flush_budget s' = flush_budget s \<and>
     prefix (trace s) (trace s')"

text \<open>A stretch of execution that does not run \<open>E\<close>, and that leaves \<open>E\<close> queued and the flag
  set if a trigger picked \<open>E\<close>.\<close>

definition quietly :: "eid \<Rightarrow> state \<Rightarrow> state \<Rightarrow> bool" where
  "quietly E s s' \<longleftrightarrow>
     (\<exists>evs. trace s' = trace s @ evs \<and> EvRun E \<notin> set evs \<and>
        (E \<in> set (invokes evs) \<longrightarrow> E \<in> set (jobQueue s') \<and> isFlushing s'))"

definition idle :: "eid \<Rightarrow> state \<Rightarrow> state \<Rightarrow> bool" where
  "idle E s s' \<longleftrightarrow> kept s s' \<and> (batching E s \<longrightarrow> quietly E s s')"

text \<open>A queue whose jobs are effects with functions that only read, log and return: the
  function of such a job, the state its run leaves, the trace of a walk over such jobs, and
  fuel that is enough for the walk.\<close>

definition body :: "state \<Rightarrow> eid \<Rightarrow> prog" where
  "body s e = (case fn (effs s ! e) of Fn g \<Rightarrow> g | Traverse v \<Rightarrow> Return Undefined)"

definition quiet_queue :: "state \<Rightarrow> bool" where
  "quiet_queue s \<longleftrightarrow>
     (\<forall>e \<in> set (jobQueue s). e < length (effs s) \<and> (\<exists>g. fn (effs s ! e) = Fn g \<and> quiet g))"

definition quiet_job :: "eid \<Rightarrow> state \<Rightarrow> state" where
  "quiet_job e s = pop_stack (quiet_run (body s e) (enter e s))"

definition walk_trace :: "state \<Rightarrow> eid list \<Rightarrow> event list" where
  "walk_trace s es = concat (map (\<lambda>e. EvRun e # quiet_trace (body s e) (data s) (Some e)) es)"

definition queue_fuel :: "state \<Rightarrow> nat" where
  "queue_fuel s =
     length (jobQueue s) + sum_list (map (\<lambda>e. depth (body s e) (data s)) (jobQueue s)) + 2"

text \<open>The two effects with the batching scheduler, and a tick that writes \<^verbatim>\<open>foo\<close> once and
  \<^verbatim>\<open>bar\<close> twice.\<close>

definition two_batched_tick :: state where
  "two_batched_tick =
     state_of (run 12 (Put ''foo'' (Num 10) (Put ''bar'' (Num 20) (Put ''bar'' (Num 21)
       (Return Undefined)))) two_batched)"

section \<open>Elementary facts\<close>

lemma bind_res_Some_iff:
  "bind_res m f = Some (r, s') \<longleftrightarrow>
     (\<exists>x. m = Some (Inl x, s') \<and> r = Inl x) \<or> (\<exists>a s1. m = Some (Inr a, s1) \<and> f a s1 = Some (r, s'))"
  by (auto simp: bind_res_def split: option.splits sum.splits prod.splits)

lemma emit_fields [simp]:
  "data (emit ev s) = data s" "bucket (emit ev s) = bucket s"
  "activeEffect (emit ev s) = activeEffect s" "effectStack (emit ev s) = effectStack s"
  "effs (emit ev s) = effs s" "jobQueue (emit ev s) = jobQueue s"
  "isFlushing (emit ev s) = isFlushing s" "comps (emit ev s) = comps s"
  "watches (emit ev s) = watches s" "microtasks (emit ev s) = microtasks s"
  "trace (emit ev s) = trace s @ [ev]"
  by (simp_all add: emit_def)

lemma normal_simps [simp]: "normal (Inr a)" "\<not> normal (Inl x)"
  by (simp_all add: normal_def)

lemma run_PutE:
  assumes "run (Suc n) (Put k v p) s = Some (r, s')"
  obtains (throws) x where "trigger n Data k (s\<lparr>data := write_data k v (data s)\<rparr>) = Some (Inl x, s')" "r = Inl x"
  | (continues) s1 where "trigger n Data k (s\<lparr>data := write_data k v (data s)\<rparr>) = Some (Inr (), s1)"
      "run n p s1 = Some (r, s')"
  using assms by (auto simp: bind_res_Some_iff)

lemma run_ValueE:
  assumes "run (Suc n) (Value c f) s = Some (r, s')"
  obtains (throws) x where "computed_value n c s = Some (Inl x, s')" "r = Inl x"
  | (continues) v s1 where "computed_value n c s = Some (Inr v, s1)" "run n (f v) s1 = Some (r, s')"
  using assms by (auto simp: bind_res_Some_iff)

lemma computed_value_SucE:
  assumes "computed_value (Suc n) c s = Some (r, s')"
  obtains (invalid) "\<not> c < length (comps s)" "r = Inl type_error" "s' = emit (EvValue c) s"
  | (throws) x where "c < length (comps s)" "dirty (comps s ! c)"
      "effectFn n (c_effect (comps s ! c)) (emit (EvValue c) s) = Some (Inl x, s')" "r = Inl x"
  | (recomputed) v s1 where "c < length (comps s)" "dirty (comps s ! c)"
      "effectFn n (c_effect (comps s ! c)) (emit (EvValue c) s) = Some (Inr v, s1)"
      "s' = track (Handle c) ''value'' (set_dirty c False (set_c_value c v s1))"
      "r = Inr (c_value (comps s' ! c))"
  | (cached) "c < length (comps s)" "\<not> dirty (comps s ! c)"
      "s' = track (Handle c) ''value'' (emit (EvValue c) s)" "r = Inr (c_value (comps s' ! c))"
  using assms
  by (auto simp: bind_res_Some_iff Let_def split: if_splits)

lemma trigger_SucE:
  assumes "trigger (Suc n) t k s = Some (r, s')"
  obtains (no_map) "bucket s t = None" "r = Inr ()" "s' = emit (EvTrigger t k) s"
  | (runs) depsMap where "bucket s t = Some depsMap"
      "run_effects n (length (trace s)) (effectsToRun (depsMap k) (activeEffect s))
         (emit (EvTrigger t k) s) = Some (r, s')"
  using assms by (auto split: option.splits)

lemma run_effects_ConsE:
  assumes "run_effects (Suc n) tid (e # es) s = Some (r, s')"
  obtains (invalid) "\<not> e < length (effs s)" "r = Inl type_error" "s' = emit (EvInvoke tid e) s"
  | (sched_throws) sch x where "e < length (effs s)" "scheduler (options (effs s ! e)) = Some sch"
      "call_scheduler n sch e (emit (EvInvoke tid e) s) = Some (Inl x, s')" "r = Inl x"
  | (sched) sch s1 where "e < length (effs s)" "scheduler (options (effs s ! e)) = Some sch"
      "call_scheduler n sch e (emit (EvInvoke tid e) s) = Some (Inr (), s1)"
      "run_effects n tid es s1 = Some (r, s')"
  | (direct_throws) x where "e < length (effs s)" "scheduler (options (effs s ! e)) = None"
      "effectFn n e (emit (EvInvoke tid e) s) = Some (Inl x, s')" "r = Inl x"
  | (direct) v s1 where "e < length (effs s)" "scheduler (options (effs s ! e)) = None"
      "effectFn n e (emit (EvInvoke tid e) s) = Some (Inr v, s1)"
      "run_effects n tid es s1 = Some (r, s')"
  using assms
  by (auto simp: bind_res_Some_iff Let_def split: if_splits option.splits)

lemma call_scheduler_ComputedE:
  assumes "call_scheduler (Suc n) (ComputedScheduler c) e s = Some (r, s')"
  obtains (invalid) "\<not> c < length (comps s)" "r = Inl type_error" "s' = s"
  | (invalidates) "c < length (comps s)" "\<not> dirty (comps s ! c)"
      "trigger n (Handle c) ''value'' (set_dirty c True s) = Some (r, s')"
  | (already) "c < length (comps s)" "dirty (comps s ! c)" "r = Inr ()" "s' = s"
  using assms by (auto split: if_splits)

lemma call_scheduler_WatchE:
  assumes "call_scheduler (Suc n) (WatchScheduler w) e s = Some (r, s')"
  obtains (invalid) "\<not> w < length (watches s)" "r = Inl type_error" "s' = s"
  | (post) "w < length (watches s)" "flush (w_options (watches s ! w)) = Some ''post''"
      "r = Inr ()" "s' = s\<lparr>microtasks := microtasks s @ [JobTask w]\<rparr>"
  | (sync) "w < length (watches s)" "flush (w_options (watches s ! w)) \<noteq> Some ''post''"
      "job n w s = Some (r, s')"
  using assms by (auto split: if_splits)

lemma job_SucE:
  assumes "job (Suc n) w s = Some (r, s')"
  obtains (invalid) "\<not> w < length (watches s)" "r = Inl type_error" "s' = s"
  | (getter_throws) x where "w < length (watches s)"
      "effectFn n (w_effect (watches s ! w)) s = Some (Inl x, s')" "r = Inl x"
  | (cb_throws) v s1 x where "w < length (watches s)"
      "effectFn n (w_effect (watches s ! w)) s = Some (Inr v, s1)"
      "run n (cb (watches (set_newValue w v s1) ! w) (newValue (watches (set_newValue w v s1) ! w))
                (oldValue (watches (set_newValue w v s1) ! w)))
         (emit (EvCallback w (newValue (watches (set_newValue w v s1) ! w))
                (oldValue (watches (set_newValue w v s1) ! w))) (set_newValue w v s1))
       = Some (Inl x, s')" "r = Inl x"
  | (finished) v s1 u s3 where "w < length (watches s)"
      "effectFn n (w_effect (watches s ! w)) s = Some (Inr v, s1)"
      "run n (cb (watches (set_newValue w v s1) ! w) (newValue (watches (set_newValue w v s1) ! w))
                (oldValue (watches (set_newValue w v s1) ! w)))
         (emit (EvCallback w (newValue (watches (set_newValue w v s1) ! w))
                (oldValue (watches (set_newValue w v s1) ! w))) (set_newValue w v s1))
       = Some (Inr u, s3)"
      "r = Inr ()" "s' = set_oldValue w (newValue (watches s3 ! w)) s3"
  using assms
  by (auto simp: bind_res_Some_iff Let_def split: if_splits)

lemma effectFn_SucE:
  assumes "effectFn (Suc n) e s = Some (r, s')"
  obtains (invalid) "\<not> e < length (effs s)" "r = Inl type_error" "s' = s"
  | (fn_throws) p x where "e < length (effs s)" "fn (effs (enter e s) ! e) = Fn p"
      "run n p (enter e s) = Some (Inl x, s')" "r = Inl x"
  | (fn_returns) p v s3 where "e < length (effs s)" "fn (effs (enter e s) ! e) = Fn p"
      "run n p (enter e s) = Some (Inr v, s3)" "r = Inr v" "s' = pop_stack s3"
  | (traverses) src v s3 where "e < length (effs s)" "fn (effs (enter e s) ! e) = Traverse src"
      "traverse src [] (enter e s) = (v, s3)" "r = Inr v" "s' = pop_stack s3"
  using assms
  by (auto simp: bind_res_Some_iff Let_def enter_def split: if_splits getter.splits prod.splits)

lemma same_shape_refl [simp]: "same_shape s s"
  by (simp add: same_shape_def)

lemma same_shape_trans: "same_shape s s1 \<Longrightarrow> same_shape s1 s2 \<Longrightarrow> same_shape s s2"
  by (simp add: same_shape_def)

lemma same_shape_lengths:
  assumes "same_shape s s'"
  shows "length (effs s') = length (effs s)" "length (comps s') = length (comps s)"
    "length (watches s') = length (watches s)"
  using assms unfolding same_shape_def by (metis length_map)+

lemma map_update_same: "f y = f (xs ! i) \<Longrightarrow> map f (xs[i := y]) = map f xs"
  by (metis list_update_beyond list_update_id map_update not_le_imp_less)

lemma same_shape_emit [simp]: "same_shape s (emit ev s)"
  by (simp add: same_shape_def)

lemma same_shape_track [simp]: "same_shape s (track t k s)"
  by (auto simp: same_shape_def track_def Let_def push_dep_def map_update_same split: option.splits)

lemma same_shape_write [simp]: "same_shape s (s\<lparr>data := d\<rparr>)"
  by (simp add: same_shape_def)

lemma same_shape_enter [simp]: "same_shape s (enter e s)"
  by (simp add: same_shape_def enter_def cleanup_def map_update_same)

lemma same_shape_pop_stack [simp]: "same_shape s (pop_stack s)"
  by (simp add: same_shape_def pop_stack_def Let_def)

lemma same_shape_set_dirty [simp]: "same_shape s (set_dirty c b s)"
  by (simp add: same_shape_def set_dirty_def map_update_same)

lemma same_shape_set_c_value [simp]: "same_shape s (set_c_value c v s)"
  by (simp add: same_shape_def set_c_value_def map_update_same)

lemma same_shape_set_newValue [simp]: "same_shape s (set_newValue w v s)"
  by (simp add: same_shape_def set_newValue_def map_update_same)

lemma same_shape_set_oldValue [simp]: "same_shape s (set_oldValue w v s)"
  by (simp add: same_shape_def set_oldValue_def map_update_same)

lemma same_shape_queue [simp]: "same_shape s (flushJob (s\<lparr>jobQueue := q\<rparr>))"
  by (simp add: same_shape_def flushJob_def)

lemma same_shape_post [simp]: "same_shape s (s\<lparr>microtasks := m\<rparr>)"
  by (simp add: same_shape_def)

lemma engine_closedD:
  assumes "engine_closed P T Q"
  shows ec_refl: "P b s s"
    and ec_seq: "P True s s1 \<Longrightarrow> P b s1 s2 \<Longrightarrow> P b s s2"
    and ec_emit: "plain_event ev \<Longrightarrow> P True s (emit ev s)"
    and ec_track: "P True s (track t k s)"
    and ec_write: "P True s (s\<lparr>data := write_data k v (data s)\<rparr>)"
    and ec_frame: "e < length (effs s) \<Longrightarrow> P b (enter e s) s3 \<Longrightarrow>
          P b s (if b then pop_stack s3 else s3)"
    and ec_recompute: "c < length (comps s) \<Longrightarrow> dirty (comps s ! c) \<Longrightarrow>
          P True (emit (EvValue c) s) s1 \<Longrightarrow>
          P True s (track (Handle c) ''value'' (set_dirty c False (set_c_value c v s1)))"
    and ec_set_newValue: "P True s (set_newValue w v s)"
    and ec_set_oldValue: "P True s (set_oldValue w v s)"
    and ec_queue: "e < length (effs s) \<Longrightarrow>
          scheduler (options (effs s ! e)) = Some JobQueueScheduler \<Longrightarrow>
          P True s (flushJob (s\<lparr>jobQueue := set_add e (jobQueue s)\<rparr>))"
    and ec_post: "w < length (watches s) \<Longrightarrow>
          P True s (s\<lparr>microtasks := microtasks s @ [JobTask w]\<rparr>)"
    and ec_put: "T Data k b s s' \<Longrightarrow> P b s s'"
    and ec_invalidate: "c < length (comps s) \<Longrightarrow> \<not> dirty (comps s ! c) \<Longrightarrow>
          T (Handle c) ''value'' b (set_dirty c True s) s' \<Longrightarrow> P b s s'"
    and ec_trigger_none: "bucket s t = None \<Longrightarrow> T t k True s (emit (EvTrigger t k) s)"
    and ec_trigger: "bucket s t = Some m \<Longrightarrow>
          Q (length (trace s)) (effectsToRun (m k) (activeEffect s)) b (emit (EvTrigger t k) s) s' \<Longrightarrow>
          T t k b s s'"
    and ec_nil: "Q tid [] True s s"
    and ec_invalid: "\<not> e < length (effs s) \<Longrightarrow> Q tid (e # es) False s (emit (EvInvoke tid e) s)"
    and ec_throw: "e < length (effs s) \<Longrightarrow> P False (emit (EvInvoke tid e) s) s' \<Longrightarrow>
          Q tid (e # es) False s s'"
    and ec_step: "e < length (effs s) \<Longrightarrow> P True (emit (EvInvoke tid e) s) s1 \<Longrightarrow>
          Q tid es b s1 s' \<Longrightarrow> Q tid (e # es) b s s'"
  using assms unfolding engine_closed_def by meson+

lemma ec_fold_track:
  assumes "engine_closed P T Q"
  shows "P True s (fold (\<lambda>k. track Data k) ks s)"
proof (induction ks arbitrary: s)
  case Nil
  show ?case using assms by (simp add: ec_refl)
next
  case (Cons k ks)
  have "P True s (track Data k s)" using assms by (rule ec_track)
  moreover have "P True (track Data k s) (fold (\<lambda>k. track Data k) ks (track Data k s))"
    by (rule Cons.IH)
  ultimately show ?case using ec_seq[OF assms] by simp
qed

lemma ec_traverse:
  assumes "engine_closed P T Q" "traverse v seen s = (r, s')"
  shows "P True s s'"
  using assms(2) ec_fold_track[OF assms(1)] ec_refl[OF assms(1)]
  by (auto simp: traverse_def split: if_splits)

lemmas exec_induct = run_computed_value_trigger_run_effects_call_scheduler_job_effectFn.induct

lemma engine_induct:
  assumes cl: "engine_closed P T Q"
  shows "\<forall>r s'. run n p s = Some (r, s') \<longrightarrow> P (normal r) s s'"
    and "\<forall>r s'. computed_value n c s = Some (r, s') \<longrightarrow> P (normal r) s s'"
    and "\<forall>r s'. trigger n t k s = Some (r, s') \<longrightarrow> T t k (normal r) s s'"
    and "\<forall>r s'. run_effects n tid es s = Some (r, s') \<longrightarrow> Q tid es (normal r) s s'"
    and "\<forall>r s'. e < length (effs s) \<longrightarrow> scheduler (options (effs s ! e)) = Some sch \<longrightarrow>
           call_scheduler n sch e s = Some (r, s') \<longrightarrow> P (normal r) s s'"
    and "\<forall>r s'. job n w s = Some (r, s') \<longrightarrow> P (normal r) s s'"
    and "\<forall>r s'. effectFn n e s = Some (r, s') \<longrightarrow> P (normal r) s s'"
proof (induction n p s and n c s and n t k s and n tid es s and n sch e s and n w s and n e s
       rule: exec_induct)
  case (1 p s) show ?case by simp
next
  case (2 n v s) show ?case using ec_refl[OF cl] by simp
next
  case (3 n v s) show ?case using ec_refl[OF cl] by simp
next
  case (4 n k f s)
  show ?case using 4 ec_seq[OF cl ec_track[OF cl]] by auto
next
  case (5 n k v p s)
  show ?case
  proof (intro allI impI)
    fix r s' assume "run (Suc n) (Put k v p) s = Some (r, s')"
    then show "P (normal r) s s'"
    proof (cases rule: run_PutE)
      case (throws x)
      then have "T Data k False (s\<lparr>data := write_data k v (data s)\<rparr>) s'" using 5(1) by fastforce
      then show ?thesis using ec_seq[OF cl ec_write[OF cl] ec_put[OF cl]] throws by simp
    next
      case (continues s1)
      then have "T Data k True (s\<lparr>data := write_data k v (data s)\<rparr>) s1" using 5(1) by fastforce
      then have "P True s s1" using ec_seq[OF cl ec_write[OF cl] ec_put[OF cl]] by blast
      moreover have "P (normal r) s1 s'" using 5(2) continues by blast
      ultimately show ?thesis using ec_seq[OF cl] by blast
    qed
  qed
next
  case (6 n c f s)
  show ?case
  proof (intro allI impI)
    fix r s' assume "run (Suc n) (Value c f) s = Some (r, s')"
    then show "P (normal r) s s'"
    proof (cases rule: run_ValueE)
      case (throws x)
      then show ?thesis using 6(1) by fastforce
    next
      case (continues v s1)
      then have "P True s s1" using 6(1) by fastforce
      moreover have "P (normal r) s1 s'" using 6(2) continues by blast
      ultimately show ?thesis using ec_seq[OF cl] by blast
    qed
  qed
next
  case (7 n v p s)
  have "P True s (emit (EvLog v) s)" using ec_emit[OF cl] by (simp add: plain_event_def)
  then show ?case using 7 ec_seq[OF cl] by auto
next
  case (8 c s) show ?case by simp
next
  case (9 n c s)
  have ev: "P True s (emit (EvValue c) s)" using ec_emit[OF cl] by (simp add: plain_event_def)
  show ?case
  proof (intro allI impI)
    fix r s' assume "computed_value (Suc n) c s = Some (r, s')"
    then show "P (normal r) s s'"
    proof (cases rule: computed_value_SucE)
      case invalid
      then show ?thesis using ec_seq[OF cl ev ec_refl[OF cl]] by simp
    next
      case (throws x)
      then have "P False (emit (EvValue c) s) s'" using 9[of "emit (EvValue c) s"] by fastforce
      then show ?thesis using throws ec_seq[OF cl ev] by simp
    next
      case (recomputed v s1)
      then have "P True (emit (EvValue c) s) s1"
        using 9[of "emit (EvValue c) s"] by fastforce
      then show ?thesis using ec_recompute[OF cl recomputed(1,2)] recomputed by simp
    next
      case cached
      then show ?thesis using ec_seq[OF cl ev ec_track[OF cl]] by simp
    qed
  qed
next
  case (10 t k s) show ?case by simp
next
  case (11 n t k s)
  show ?case
  proof (intro allI impI)
    fix r s' assume "trigger (Suc n) t k s = Some (r, s')"
    then show "T t k (normal r) s s'"
    proof (cases rule: trigger_SucE)
      case no_map
      then show ?thesis using ec_trigger_none[OF cl] by simp
    next
      case (runs depsMap)
      then have "Q (length (trace s)) (effectsToRun (depsMap k) (activeEffect s)) (normal r)
                   (emit (EvTrigger t k) s) s'" using 11 by blast
      then show ?thesis using ec_trigger[OF cl runs(1)] by blast
    qed
  qed
next
  case (12 tid es s) show ?case by simp
next
  case (13 n tid s) show ?case using ec_nil[OF cl] by simp
next
  case (14 n tid e es s)
  show ?case
  proof (intro allI impI)
    fix r s' assume "run_effects (Suc n) tid (e # es) s = Some (r, s')"
    then show "Q tid (e # es) (normal r) s s'"
    proof (cases rule: run_effects_ConsE)
      case invalid
      then show ?thesis using ec_invalid[OF cl] by simp
    next
      case (sched_throws sch x)
      then have "P False (emit (EvInvoke tid e) s) s'"
        using 14(2)[of "emit (EvInvoke tid e) s" sch] by fastforce
      then show ?thesis using sched_throws ec_throw[OF cl] by simp
    next
      case (sched sch s1)
      then have "P True (emit (EvInvoke tid e) s) s1"
        using 14(2)[of "emit (EvInvoke tid e) s" sch] by fastforce
      moreover have "Q tid es (normal r) s1 s'" using 14(3) sched by blast
      ultimately show ?thesis using ec_step[OF cl sched(1)] by blast
    next
      case (direct_throws x)
      then have "P False (emit (EvInvoke tid e) s) s'"
        using 14(1)[of "emit (EvInvoke tid e) s"] by fastforce
      then show ?thesis using direct_throws ec_throw[OF cl] by simp
    next
      case (direct v s1)
      then have "P True (emit (EvInvoke tid e) s) s1"
        using 14(1)[of "emit (EvInvoke tid e) s"] by fastforce
      moreover have "Q tid es (normal r) s1 s'" using 14(3) direct by blast
      ultimately show ?thesis using ec_step[OF cl direct(1)] by blast
    qed
  qed
next
  case (15 sch e s) show ?case by simp
next
  case (16 n e s)
  show ?case using ec_queue[OF cl] by simp
next
  case (17 n c e s)
  show ?case
  proof (intro allI impI)
    fix r s' assume "e < length (effs s)" "scheduler (options (effs s ! e)) = Some (ComputedScheduler c)"
    assume "call_scheduler (Suc n) (ComputedScheduler c) e s = Some (r, s')"
    then show "P (normal r) s s'"
    proof (cases rule: call_scheduler_ComputedE)
      case invalid
      then show ?thesis using ec_refl[OF cl] by simp
    next
      case invalidates
      then have "T (Handle c) ''value'' (normal r) (set_dirty c True s) s'" using 17 by blast
      then show ?thesis using ec_invalidate[OF cl invalidates(1,2)] by blast
    next
      case already
      then show ?thesis using ec_refl[OF cl] by simp
    qed
  qed
next
  case (18 n w e s)
  show ?case
  proof (intro allI impI)
    fix r s' assume "e < length (effs s)" "scheduler (options (effs s ! e)) = Some (WatchScheduler w)"
    assume "call_scheduler (Suc n) (WatchScheduler w) e s = Some (r, s')"
    then show "P (normal r) s s'"
    proof (cases rule: call_scheduler_WatchE)
      case invalid
      then show ?thesis using ec_refl[OF cl] by simp
    next
      case post
      then show ?thesis using ec_post[OF cl] by simp
    next
      case sync
      then show ?thesis using 18 by blast
    qed
  qed
next
  case (19 w s) show ?case by simp
next
  case (20 n w s)
  have cbev: "\<And>s a b. P True s (emit (EvCallback w a b) s)"
    using ec_emit[OF cl] by (simp add: plain_event_def)
  show ?case
  proof (intro allI impI)
    fix r s' assume "job (Suc n) w s = Some (r, s')"
    then show "P (normal r) s s'"
    proof (cases rule: job_SucE)
      case invalid
      then show ?thesis using ec_refl[OF cl] by simp
    next
      case (getter_throws x)
      then show ?thesis using 20(1) by fastforce
    next
      case (cb_throws v s1 x)
      then have a: "P True s s1" using 20(1) by fastforce
      have b: "P True s1 (set_newValue w v s1)" using ec_set_newValue[OF cl] .
      have c: "P False (emit (EvCallback w (newValue (watches (set_newValue w v s1) ! w))
                (oldValue (watches (set_newValue w v s1) ! w))) (set_newValue w v s1)) s'"
        using 20(2)[OF _ refl refl refl] cb_throws by fastforce
      show ?thesis
        using ec_seq[OF cl a ec_seq[OF cl b ec_seq[OF cl cbev c]]] cb_throws
        by simp
    next
      case (finished v s1 u s3)
      then have a: "P True s s1" using 20(1) by fastforce
      have b: "P True s1 (set_newValue w v s1)" using ec_set_newValue[OF cl] .
      have c: "P True (emit (EvCallback w (newValue (watches (set_newValue w v s1) ! w))
                (oldValue (watches (set_newValue w v s1) ! w))) (set_newValue w v s1)) s3"
        using 20(2)[OF _ refl refl refl] finished by fastforce
      have abc: "P True s s3"
        using ec_seq[OF cl a ec_seq[OF cl b ec_seq[OF cl cbev c]]] .
      have "P True s3 s'" using ec_set_oldValue[OF cl] finished by simp
      then show ?thesis using ec_seq[OF cl abc] finished by simp
    qed
  qed
next
  case (21 e s) show ?case by simp
next
  case (22 n e s)
  show ?case
  proof (intro allI impI)
    fix r s' assume "effectFn (Suc n) e s = Some (r, s')"
    then show "P (normal r) s s'"
    proof (cases rule: effectFn_SucE)
      case invalid
      then show ?thesis using ec_refl[OF cl] by simp
    next
      case (fn_throws p x)
      then have "P False (enter e s) s'"
        using 22[OF _ refl refl, of p] by (fastforce simp: enter_def)
      then show ?thesis using ec_frame[OF cl fn_throws(1), of False s'] fn_throws by simp
    next
      case (fn_returns p v s3)
      then have "P True (enter e s) s3"
        using 22[OF _ refl refl, of p] by (fastforce simp: enter_def)
      then show ?thesis using ec_frame[OF cl fn_returns(1), of True s3] fn_returns by simp
    next
      case (traverses src v s3)
      then have "P True (enter e s) s3" using ec_traverse[OF cl] by blast
      then show ?thesis using ec_frame[OF cl traverses(1), of True s3] traverses by simp
    qed
  qed
qed

lemma subs_of_bucket_delete:
  "subs_of (bucket_delete e d b) t k =
     (if (t, k) = d then removeAll e (subs_of b t k) else subs_of b t k)"
  by (cases d) (auto simp: subs_of_def bucket_delete_def set_delete_def split: option.splits)

lemma subs_of_fold_bucket_delete:
  "subs_of (fold (bucket_delete e) ds b) t k =
     (if (t, k) \<in> set ds then removeAll e (subs_of b t k) else subs_of b t k)"
  by (induction ds arbitrary: b) (auto simp: subs_of_bucket_delete)

lemma track_fields [simp]:
  "data (track t k s) = data s" "activeEffect (track t k s) = activeEffect s"
  "effectStack (track t k s) = effectStack s" "jobQueue (track t k s) = jobQueue s"
  "isFlushing (track t k s) = isFlushing s" "comps (track t k s) = comps s"
  "watches (track t k s) = watches s" "microtasks (track t k s) = microtasks s"
  "trace (track t k s) = trace s @ [EvTrack t k (activeEffect s)]"
  "length (effs (track t k s)) = length (effs s)"
  by (auto simp: track_def Let_def split: option.splits)

lemma subscribers_track:
  "subscribers (track t k s) t' k' =
     (if (t', k') = (t, k)
      then (case activeEffect s of None \<Rightarrow> subscribers s t k | Some a \<Rightarrow> set_add a (subscribers s t k))
      else subscribers s t' k')"
  by (auto simp: subscribers_def subs_of_def track_def Let_def split: option.splits)

lemma deps_track:
  "e < length (effs s) \<Longrightarrow> deps (effs (track t k s) ! e) =
     (if activeEffect s = Some e then deps (effs s ! e) @ [(t, k)] else deps (effs s ! e))"
  by (auto simp: track_def Let_def push_dep_def nth_list_update split: option.splits)

lemma cleanup_fields [simp]:
  "data (cleanup e s) = data s" "activeEffect (cleanup e s) = activeEffect s"
  "effectStack (cleanup e s) = effectStack s" "jobQueue (cleanup e s) = jobQueue s"
  "isFlushing (cleanup e s) = isFlushing s" "comps (cleanup e s) = comps s"
  "watches (cleanup e s) = watches s" "microtasks (cleanup e s) = microtasks s"
  "trace (cleanup e s) = trace s"
  "length (effs (cleanup e s)) = length (effs s)"
  by (simp_all add: cleanup_def)

lemma subscribers_cleanup:
  "subscribers (cleanup e s) t k =
     (if (t, k) \<in> set (deps (effs s ! e)) then removeAll e (subscribers s t k) else subscribers s t k)"
  by (simp add: subscribers_def cleanup_def subs_of_fold_bucket_delete)

lemma deps_cleanup:
  "e' < length (effs s) \<Longrightarrow> deps (effs (cleanup e s) ! e') = (if e' = e then [] else deps (effs s ! e'))"
  by (simp add: cleanup_def nth_list_update)

lemma enter_fields [simp]:
  "data (enter e s) = data s" "activeEffect (enter e s) = Some e"
  "effectStack (enter e s) = effectStack s @ [e]" "jobQueue (enter e s) = jobQueue s"
  "isFlushing (enter e s) = isFlushing s" "comps (enter e s) = comps s"
  "watches (enter e s) = watches s" "microtasks (enter e s) = microtasks s"
  "trace (enter e s) = trace s @ [EvRun e]"
  "length (effs (enter e s)) = length (effs s)"
  by (simp_all add: enter_def)

lemma subscribers_enter:
  "subscribers (enter e s) t k =
     (if (t, k) \<in> set (deps (effs s ! e)) then removeAll e (subscribers s t k) else subscribers s t k)"
  by (simp add: enter_def subscribers_def cleanup_def subs_of_fold_bucket_delete)

lemma deps_enter:
  "e' < length (effs s) \<Longrightarrow> deps (effs (enter e s) ! e') = (if e' = e then [] else deps (effs s ! e'))"
  by (simp add: enter_def cleanup_def nth_list_update)

lemma pop_stack_fields [simp]:
  "data (pop_stack s) = data s" "bucket (pop_stack s) = bucket s"
  "effectStack (pop_stack s) = butlast (effectStack s)"
  "activeEffect (pop_stack s) =
     (if butlast (effectStack s) = [] then None else Some (last (butlast (effectStack s))))"
  "effs (pop_stack s) = effs s" "jobQueue (pop_stack s) = jobQueue s"
  "isFlushing (pop_stack s) = isFlushing s" "comps (pop_stack s) = comps s"
  "watches (pop_stack s) = watches s" "microtasks (pop_stack s) = microtasks s"
  "trace (pop_stack s) = trace s"
  by (simp_all add: pop_stack_def Let_def)

lemma set_dirty_fields [simp]:
  "data (set_dirty c b s) = data s" "bucket (set_dirty c b s) = bucket s"
  "activeEffect (set_dirty c b s) = activeEffect s" "effectStack (set_dirty c b s) = effectStack s"
  "effs (set_dirty c b s) = effs s" "jobQueue (set_dirty c b s) = jobQueue s"
  "isFlushing (set_dirty c b s) = isFlushing s" "watches (set_dirty c b s) = watches s"
  "microtasks (set_dirty c b s) = microtasks s" "trace (set_dirty c b s) = trace s"
  "length (comps (set_dirty c b s)) = length (comps s)"
  by (simp_all add: set_dirty_def)

lemma set_c_value_fields [simp]:
  "data (set_c_value c v s) = data s" "bucket (set_c_value c v s) = bucket s"
  "activeEffect (set_c_value c v s) = activeEffect s" "effectStack (set_c_value c v s) = effectStack s"
  "effs (set_c_value c v s) = effs s" "jobQueue (set_c_value c v s) = jobQueue s"
  "isFlushing (set_c_value c v s) = isFlushing s" "watches (set_c_value c v s) = watches s"
  "microtasks (set_c_value c v s) = microtasks s" "trace (set_c_value c v s) = trace s"
  "length (comps (set_c_value c v s)) = length (comps s)"
  by (simp_all add: set_c_value_def)

lemma set_newValue_fields [simp]:
  "data (set_newValue w v s) = data s" "bucket (set_newValue w v s) = bucket s"
  "activeEffect (set_newValue w v s) = activeEffect s" "effectStack (set_newValue w v s) = effectStack s"
  "effs (set_newValue w v s) = effs s" "jobQueue (set_newValue w v s) = jobQueue s"
  "isFlushing (set_newValue w v s) = isFlushing s" "comps (set_newValue w v s) = comps s"
  "microtasks (set_newValue w v s) = microtasks s" "trace (set_newValue w v s) = trace s"
  "length (watches (set_newValue w v s)) = length (watches s)"
  by (simp_all add: set_newValue_def)

lemma set_oldValue_fields [simp]:
  "data (set_oldValue w v s) = data s" "bucket (set_oldValue w v s) = bucket s"
  "activeEffect (set_oldValue w v s) = activeEffect s" "effectStack (set_oldValue w v s) = effectStack s"
  "effs (set_oldValue w v s) = effs s" "jobQueue (set_oldValue w v s) = jobQueue s"
  "isFlushing (set_oldValue w v s) = isFlushing s" "comps (set_oldValue w v s) = comps s"
  "microtasks (set_oldValue w v s) = microtasks s" "trace (set_oldValue w v s) = trace s"
  "length (watches (set_oldValue w v s)) = length (watches s)"
  by (simp_all add: set_oldValue_def)

lemma flushJob_fields [simp]:
  "data (flushJob s) = data s" "bucket (flushJob s) = bucket s"
  "activeEffect (flushJob s) = activeEffect s" "effectStack (flushJob s) = effectStack s"
  "effs (flushJob s) = effs s" "jobQueue (flushJob s) = jobQueue s"
  "comps (flushJob s) = comps s" "watches (flushJob s) = watches s"
  "trace (flushJob s) = trace s"
  by (simp_all add: flushJob_def)

lemma subscribers_simps [simp]:
  "subscribers (emit ev s) = subscribers s"
  "subscribers (pop_stack s) = subscribers s"
  "subscribers (set_dirty c b s) = subscribers s"
  "subscribers (set_c_value c v s) = subscribers s"
  "subscribers (set_newValue w v s) = subscribers s"
  "subscribers (set_oldValue w v s) = subscribers s"
  "subscribers (flushJob s) = subscribers s"
  "subscribers (s\<lparr>data := d\<rparr>) = subscribers s"
  "subscribers (s\<lparr>jobQueue := q\<rparr>) = subscribers s"
  "subscribers (s\<lparr>microtasks := m\<rparr>) = subscribers s"
  by (simp_all add: subscribers_def fun_eq_iff)

subsection \<open>The trace and the job queue only grow\<close>

lemma step_closedD:
  assumes "step_closed R"
  shows sc_refl: "R s s"
    and sc_trans: "R s s1 \<Longrightarrow> R s1 s2 \<Longrightarrow> R s s2"
    and sc_emit: "R s (emit ev s)"
    and sc_track: "R s (track t k s)"
    and sc_write: "R s (s\<lparr>data := write_data k v (data s)\<rparr>)"
    and sc_enter: "e < length (effs s) \<Longrightarrow> R s (enter e s)"
    and sc_pop: "R s (pop_stack s)"
    and sc_set_dirty: "R s (set_dirty c b s)"
    and sc_set_c_value: "R s (set_c_value c v s)"
    and sc_set_newValue: "R s (set_newValue w v s)"
    and sc_set_oldValue: "R s (set_oldValue w v s)"
    and sc_queue: "e < length (effs s) \<Longrightarrow>
          scheduler (options (effs s ! e)) = Some JobQueueScheduler \<Longrightarrow>
          R s (flushJob (s\<lparr>jobQueue := set_add e (jobQueue s)\<rparr>))"
    and sc_post: "w < length (watches s) \<Longrightarrow> R s (s\<lparr>microtasks := microtasks s @ [JobTask w]\<rparr>)"
  using assms unfolding step_closed_def by meson+

lemma step_closed_engine:
  assumes sc: "step_closed R"
  shows "engine_closed (\<lambda>b. R) (\<lambda>t k b. R) (\<lambda>tid es b. R)"
  unfolding engine_closed_def
proof (intro conjI allI impI)
  fix b s e s3 assume "e < length (effs s)" "R (enter e s) s3"
  then have "R s s3" using sc_trans[OF sc sc_enter[OF sc]] by blast
  then show "R s (if b then pop_stack s3 else s3)"
    using sc_trans[OF sc _ sc_pop[OF sc]] by simp
next
  fix s s1 c v assume "R (emit (EvValue c) s) s1"
  then have "R s s1" using sc_trans[OF sc sc_emit[OF sc]] by blast
  then have "R s (set_c_value c v s1)" using sc_trans[OF sc _ sc_set_c_value[OF sc]] by blast
  then have "R s (set_dirty c False (set_c_value c v s1))"
    using sc_trans[OF sc _ sc_set_dirty[OF sc]] by blast
  then show "R s (track (Handle c) ''value'' (set_dirty c False (set_c_value c v s1)))"
    using sc_trans[OF sc _ sc_track[OF sc]] by blast
next
  fix b s s' c assume "R (set_dirty c True s) s'"
  then show "R s s'" using sc_trans[OF sc sc_set_dirty[OF sc]] by blast
next
  fix b s s' t k m
  assume "R (emit (EvTrigger t k) s) s'"
  then show "R s s'" using sc_trans[OF sc sc_emit[OF sc]] by blast
next
  fix s s' tid e es assume "R (emit (EvInvoke tid e) s) s'"
  then show "R s s'" using sc_trans[OF sc sc_emit[OF sc]] by blast
next
  fix b s s1 s' tid e es assume "R (emit (EvInvoke tid e) s) s1" "R s1 s'"
  then show "R s s'" using sc_trans[OF sc sc_trans[OF sc sc_emit[OF sc]]] by blast
qed (assumption | rule sc_refl[OF sc] sc_emit[OF sc] sc_track[OF sc] sc_write[OF sc]
      sc_set_newValue[OF sc] sc_set_oldValue[OF sc] sc_queue[OF sc] sc_post[OF sc]
  | erule sc_trans[OF sc])+

lemmas step_closed_exec = engine_induct[OF step_closed_engine, rule_format]

lemma closed_trace_extends: "step_closed trace_extends"
  unfolding step_closed_def trace_extends_def
  by (auto simp: prefix_def)


lemma closed_same_shape: "step_closed same_shape"
  unfolding step_closed_def
  by (auto intro: same_shape_trans)


lemma effs_simps [simp]:
  "effs (set_dirty c b s) = effs s" "effs (set_c_value c v s) = effs s"
  by (simp_all add: set_dirty_def set_c_value_def)

lemma well_formed_track: "well_formed s \<Longrightarrow> well_formed (track t k s)"
  unfolding well_formed_def
  by (auto simp: subscribers_track deps_track set_add_def split: option.splits if_splits)

lemma well_formed_enter: "well_formed s \<Longrightarrow> e < length (effs s) \<Longrightarrow> well_formed (enter e s)"
  unfolding well_formed_def
  by (auto simp: subscribers_enter deps_enter split: if_splits)

lemma well_formed_pop_stack: "well_formed s \<Longrightarrow> well_formed (pop_stack s)"
  unfolding well_formed_def
  by (auto simp: in_set_butlastD dest: last_in_set)

lemma closed_keeps_well_formed: "step_closed keeps_well_formed"
  unfolding step_closed_def keeps_well_formed_def
proof (intro conjI allI impI)
  fix s t k assume "well_formed s" then show "well_formed (track t k s)" by (rule well_formed_track)
next
  fix s :: state and e assume "e < length (effs s)" "well_formed s" then show "well_formed (enter e s)" by (simp add: well_formed_enter)
next
  fix s assume "well_formed s" then show "well_formed (pop_stack s)" by (rule well_formed_pop_stack)
qed (auto simp: well_formed_def)

lemma closed_joins_by_track: "step_closed joins_by_track"
  unfolding step_closed_def joins_by_track_def
proof (intro conjI allI impI)
  fix s s1 s2
  assume a: "\<exists>evs. trace s1 = trace s @ evs \<and>
        (\<forall>e t k. e \<in> set (subscribers s1 t k) \<longrightarrow>
           e \<in> set (subscribers s t k) \<or> EvTrack t k (Some e) \<in> set evs)"
    and b: "\<exists>evs. trace s2 = trace s1 @ evs \<and>
        (\<forall>e t k. e \<in> set (subscribers s2 t k) \<longrightarrow>
           e \<in> set (subscribers s1 t k) \<or> EvTrack t k (Some e) \<in> set evs)"
  from a obtain evs1 where 1: "trace s1 = trace s @ evs1"
    "\<forall>e t k. e \<in> set (subscribers s1 t k) \<longrightarrow>
           e \<in> set (subscribers s t k) \<or> EvTrack t k (Some e) \<in> set evs1" by blast
  from b obtain evs2 where 2: "trace s2 = trace s1 @ evs2"
    "\<forall>e t k. e \<in> set (subscribers s2 t k) \<longrightarrow>
           e \<in> set (subscribers s1 t k) \<or> EvTrack t k (Some e) \<in> set evs2" by blast
  have "trace s2 = trace s @ (evs1 @ evs2)" using 1 2 by simp
  moreover have "\<forall>e t k. e \<in> set (subscribers s2 t k) \<longrightarrow>
           e \<in> set (subscribers s t k) \<or> EvTrack t k (Some e) \<in> set (evs1 @ evs2)"
    using 1(2) 2(2) unfolding set_append Un_iff by blast
  ultimately show "\<exists>evs. trace s2 = trace s @ evs \<and>
        (\<forall>e t k. e \<in> set (subscribers s2 t k) \<longrightarrow>
           e \<in> set (subscribers s t k) \<or> EvTrack t k (Some e) \<in> set evs)" by blast
next
  fix s t k
  show "\<exists>evs. trace (track t k s) = trace s @ evs \<and>
        (\<forall>e ta ka. e \<in> set (subscribers (track t k s) ta ka) \<longrightarrow>
           e \<in> set (subscribers s ta ka) \<or> EvTrack ta ka (Some e) \<in> set evs)"
    by (auto simp: subscribers_track set_add_def split: option.splits if_splits)
next
  fix s :: state and e assume "e < length (effs s)"
  show "\<exists>evs. trace (enter e s) = trace s @ evs \<and>
        (\<forall>ea t k. ea \<in> set (subscribers (enter e s) t k) \<longrightarrow>
           ea \<in> set (subscribers s t k) \<or> EvTrack t k (Some ea) \<in> set evs)"
    by (auto simp: subscribers_enter split: if_splits)
qed auto

lemma stack_rel_refl: "stack_rel b s s"
  by (simp add: stack_rel_def)

lemma stack_rel_seq: "stack_rel True s s1 \<Longrightarrow> stack_rel b s1 s2 \<Longrightarrow> stack_rel b s s2"
  by (auto simp: stack_rel_def)

lemma stack_rel_same:
  "effectStack s' = effectStack s \<Longrightarrow> activeEffect s' = activeEffect s \<Longrightarrow> stack_rel b s s'"
  by (simp add: stack_rel_def act_top_def)

lemma stack_rel_frame:
  assumes "stack_rel b (enter e s) s3"
  shows "stack_rel b s (if b then pop_stack s3 else s3)"
proof -
  have at: "act_top (enter e s)" by (simp add: act_top_def)
  from assms have p: "prefix (effectStack s @ [e]) (effectStack s3)"
    and q: "b \<longrightarrow> effectStack s3 = effectStack s @ [e]" and r: "act_top s3"
    using at by (simp_all add: stack_rel_def)
  have "prefix (effectStack s) (effectStack (if b then pop_stack s3 else s3))"
    using p q by (auto simp: prefix_def butlast_append)
  moreover have "b \<longrightarrow> effectStack (if b then pop_stack s3 else s3) = effectStack s"
    using q by auto
  moreover have "act_top (if b then pop_stack s3 else s3)"
    using r by (auto simp: act_top_def)
  ultimately show ?thesis by (simp add: stack_rel_def)
qed

lemma closed_stack_rel: "engine_closed stack_rel (\<lambda>t k. stack_rel) (\<lambda>tid es. stack_rel)"
  unfolding engine_closed_def
proof (intro conjI allI impI)
  fix b s e s3 assume "stack_rel b (enter e s) s3"
  then show "stack_rel b s (if b then pop_stack s3 else s3)" by (rule stack_rel_frame)
next
  fix s s1 c v assume "stack_rel True (emit (EvValue c) s) s1"
  then show "stack_rel True s (track (Handle c) ''value'' (set_dirty c False (set_c_value c v s1)))"
    by (simp add: stack_rel_def act_top_def)
next
  fix b s s' c assume "stack_rel b (set_dirty c True s) s'"
  then show "stack_rel b s s'" by (simp add: stack_rel_def act_top_def)
next
  fix b s s' t k m assume "stack_rel b (emit (EvTrigger t k) s) s'"
  then show "stack_rel b s s'" by (simp add: stack_rel_def act_top_def)
next
  fix s s' tid e es assume "stack_rel False (emit (EvInvoke tid e) s) s'"
  then show "stack_rel False s s'" by (simp add: stack_rel_def act_top_def)
next
  fix b s s1 s' tid e es assume "stack_rel True (emit (EvInvoke tid e) s) s1" "stack_rel b s1 s'"
  then show "stack_rel b s s'" by (auto simp: stack_rel_def act_top_def)
qed (assumption | rule stack_rel_refl | erule stack_rel_seq | rule stack_rel_same, simp, simp)+

lemma invoked_by_append [simp]: "invoked_by tid (xs @ ys) = invoked_by tid xs @ invoked_by tid ys"
  by (induction xs) (auto split: event.splits)

lemma later_invokes_Cons:
  "later_invokes b (ev # evs) \<longleftrightarrow> (\<forall>i e. ev = EvInvoke i e \<longrightarrow> b \<le> i) \<and> later_invokes b evs"
  by (auto simp: later_invokes_def)

lemma invoked_by_later: "later_invokes b evs \<Longrightarrow> tid < b \<Longrightarrow> invoked_by tid evs = []"
  by (induction evs) (auto simp: later_invokes_Cons split: event.splits)

lemma later_invokes_simps [simp]:
  "later_invokes b []"
  "later_invokes b (xs @ ys) \<longleftrightarrow> later_invokes b xs \<and> later_invokes b ys"
  "later_invokes b [EvRun e]" "later_invokes b [EvTrack t k a]" "later_invokes b [EvTrigger t k]"
  "later_invokes b [EvValue c]" "later_invokes b [EvCallback w x y]" "later_invokes b [EvLog v]"
  "later_invokes b [EvInvoke i e] \<longleftrightarrow> b \<le> i"
  by (auto simp: later_invokes_def)

lemma later_invokes_mono: "later_invokes b evs \<Longrightarrow> a \<le> b \<Longrightarrow> later_invokes a evs"
  by (auto simp: later_invokes_def)

lemma run_rel_refl: "run_rel b s s"
  by (simp add: run_rel_def)

lemma run_rel_seq:
  assumes "run_rel True s s1" "run_rel b s1 s2"
  shows "run_rel b s s2"
proof -
  from assms(1) obtain evs1 where 1: "trace s1 = trace s @ evs1"
    "later_invokes (length (trace s)) evs1" by (auto simp: run_rel_def)
  from assms(2) obtain evs2 where 2: "trace s2 = trace s1 @ evs2"
    "later_invokes (length (trace s1)) evs2" by (auto simp: run_rel_def)
  have "later_invokes (length (trace s)) evs2"
    using later_invokes_mono[OF 2(2), of "length (trace s)"] 1(1) by simp
  then show ?thesis unfolding run_rel_def using 1 2
    by (intro exI[where x="evs1 @ evs2"]) simp
qed

lemma run_rel_step:
  "trace s' = trace s @ evs \<Longrightarrow> later_invokes (length (trace s)) evs \<Longrightarrow> run_rel b s s'"
  by (auto simp: run_rel_def)

lemma run_rel_frame:
  assumes "run_rel b (enter e s) s3"
  shows "run_rel b s (if b then pop_stack s3 else s3)"
proof -
  from assms obtain evs where "trace s3 = (trace s @ [EvRun e]) @ evs"
    "later_invokes (Suc (length (trace s))) evs" by (auto simp: run_rel_def)
  then have "trace (if b then pop_stack s3 else s3) = trace s @ (EvRun e # evs)"
    "later_invokes (length (trace s)) ([EvRun e] @ evs)"
    using later_invokes_mono[of "Suc (length (trace s))" evs "length (trace s)"]
    by (auto simp: later_invokes_Cons)
  then show ?thesis unfolding run_rel_def by (auto simp: later_invokes_Cons)
qed

lemma closed_run_rel: "engine_closed run_rel trigger_rel walk_rel"
  unfolding engine_closed_def
proof (intro conjI allI impI)
  fix b s s1 s2 assume "run_rel True s s1" "run_rel b s1 s2"
  then show "run_rel b s s2" by (rule run_rel_seq)
next
  fix b s e s3 assume "run_rel b (enter e s) s3"
  then show "run_rel b s (if b then pop_stack s3 else s3)" by (rule run_rel_frame)
next
  fix s ev assume "plain_event ev"
  then show "run_rel True s (emit ev s)"
    by (intro run_rel_step[where evs="[ev]"]) (auto simp: plain_event_def later_invokes_def split: event.splits)
next
  fix s t k show "run_rel True s (track t k s)"
    by (intro run_rel_step[where evs="[EvTrack t k (activeEffect s)]"]) auto
next
  fix s s1 c v assume "run_rel True (emit (EvValue c) s) s1"
  then have "run_rel True s s1"
    using run_rel_seq[OF run_rel_step[where evs="[EvValue c]" and s'="emit (EvValue c) s"]] by simp
  moreover have "run_rel True s1 (track (Handle c) ''value'' (set_dirty c False (set_c_value c v s1)))"
    by (intro run_rel_step[where evs="[EvTrack (Handle c) ''value'' (activeEffect s1)]"]) auto
  ultimately show "run_rel True s (track (Handle c) ''value'' (set_dirty c False (set_c_value c v s1)))"
    by (rule run_rel_seq)
next
  fix b s s' k assume "trigger_rel Data k b s s'"
  then show "run_rel b s s'" by (auto simp: trigger_rel_def run_rel_def)
next
  fix b s s' c assume "trigger_rel (Handle c) ''value'' b (set_dirty c True s) s'"
  then show "run_rel b s s'" by (auto simp: trigger_rel_def run_rel_def)
next
  fix s :: state and t k assume "bucket s t = None"
  then show "trigger_rel t k True s (emit (EvTrigger t k) s)"
    unfolding trigger_rel_def
    by (intro exI[where x="[EvTrigger t k]"]) (simp add: snapshot_def effectsToRun_def)
next
  fix b and s s' :: state and t k m
  assume m: "bucket s t = Some m"
    and "walk_rel (length (trace s)) (effectsToRun (m k) (activeEffect s)) b (emit (EvTrigger t k) s) s'"
  then obtain evs where evs: "trace s' = (trace s @ [EvTrigger t k]) @ evs"
    "\<forall>i e. EvInvoke i e \<in> set evs \<longrightarrow> Suc (length (trace s)) \<le> i \<or> i = length (trace s)"
    "prefix (invoked_by (length (trace s)) evs) (effectsToRun (m k) (activeEffect s))"
    "b \<longrightarrow> invoked_by (length (trace s)) evs = effectsToRun (m k) (activeEffect s)"
    by (auto simp: walk_rel_def)
  have sn: "snapshot s t k = effectsToRun (m k) (activeEffect s)" using m by (simp add: snapshot_def)
  have "later_invokes (length (trace s)) (EvTrigger t k # evs)"
    using evs(2) by (auto simp: later_invokes_def)
  then show "trigger_rel t k b s s'"
    unfolding trigger_rel_def using evs sn
    by (intro exI[where x="EvTrigger t k # evs"]) simp
next
  fix s :: state and tid show "walk_rel tid [] True s s" by (simp add: walk_rel_def)
next
  fix s tid e es
  show "walk_rel tid (e # es) False s (emit (EvInvoke tid e) s)"
    unfolding walk_rel_def by (intro impI exI[where x="[EvInvoke tid e]"]) simp
next
  fix s s' tid e es
  assume "run_rel False (emit (EvInvoke tid e) s) s'"
  then obtain evs where evs: "trace s' = (trace s @ [EvInvoke tid e]) @ evs"
    "later_invokes (Suc (length (trace s))) evs" by (auto simp: run_rel_def)
  show "walk_rel tid (e # es) False s s'"
    unfolding walk_rel_def
  proof (intro impI)
    assume lt: "tid < length (trace s)"
    have a: "trace s' = trace s @ EvInvoke tid e # evs" using evs by simp
    have b: "\<forall>i ea. EvInvoke i ea \<in> set (EvInvoke tid e # evs) \<longrightarrow> length (trace s) \<le> i \<or> i = tid"
      using evs(2) by (auto simp: later_invokes_def)
    have "invoked_by tid evs = []" using invoked_by_later[OF evs(2)] lt by simp
    then have c: "prefix (invoked_by tid (EvInvoke tid e # evs)) (e # es)" by simp
    show "\<exists>evsa. trace s' = trace s @ evsa \<and>
           (\<forall>i e. EvInvoke i e \<in> set evsa \<longrightarrow> length (trace s) \<le> i \<or> i = tid) \<and>
           prefix (invoked_by tid evsa) (e # es) \<and> (False \<longrightarrow> invoked_by tid evsa = e # es)"
      using a b c by blast
  qed
next
  fix b s s1 s' tid e es
  assume "run_rel True (emit (EvInvoke tid e) s) s1" and w: "walk_rel tid es b s1 s'"
  then obtain evs where evs: "trace s1 = (trace s @ [EvInvoke tid e]) @ evs"
    "later_invokes (Suc (length (trace s))) evs" by (auto simp: run_rel_def)
  show "walk_rel tid (e # es) b s s'"
    unfolding walk_rel_def
  proof (intro impI)
    assume lt: "tid < length (trace s)"
    then have "tid < length (trace s1)" using evs by simp
    with w obtain evs2 where evs2: "trace s' = trace s1 @ evs2"
      "\<forall>i e. EvInvoke i e \<in> set evs2 \<longrightarrow> length (trace s1) \<le> i \<or> i = tid"
      "prefix (invoked_by tid evs2) es" "b \<longrightarrow> invoked_by tid evs2 = es"
      by (auto simp: walk_rel_def)
    have nil: "invoked_by tid evs = []" using invoked_by_later[OF evs(2)] lt by simp
    show "\<exists>evsa. trace s' = trace s @ evsa \<and>
           (\<forall>i e. EvInvoke i e \<in> set evsa \<longrightarrow> length (trace s) \<le> i \<or> i = tid) \<and>
           prefix (invoked_by tid evsa) (e # es) \<and> (b \<longrightarrow> invoked_by tid evsa = e # es)"
    proof (intro exI[where x="EvInvoke tid e # evs @ evs2"] conjI)
      show "trace s' = trace s @ EvInvoke tid e # evs @ evs2" using evs evs2 by simp
      show "\<forall>i ea. EvInvoke i ea \<in> set (EvInvoke tid e # evs @ evs2) \<longrightarrow> length (trace s) \<le> i \<or> i = tid"
        using evs evs2(2) by (auto simp: later_invokes_def)
      show "prefix (invoked_by tid (EvInvoke tid e # evs @ evs2)) (e # es)"
        using nil evs2(3) by simp
      show "b \<longrightarrow> invoked_by tid (EvInvoke tid e # evs @ evs2) = e # es"
        using nil evs2(4) by simp
    qed
  qed
qed (rule run_rel_refl | (rule run_rel_step[where evs="[]"], simp, simp))+

lemmas run_rel_exec = engine_induct[OF closed_run_rel, rule_format]

lemmas well_formed_exec = step_closed_exec[OF closed_keeps_well_formed, unfolded keeps_well_formed_def, rule_format]

lemmas trace_exec = step_closed_exec[OF closed_trace_extends, unfolded trace_extends_def]

lemma fold_set_add_set:
  "set (fold (\<lambda>e acc. if Some e \<noteq> a then set_add e acc else acc) es acc) =
     set acc \<union> {e \<in> set es. Some e \<noteq> a}"
  by (induction es arbitrary: acc) (auto simp: set_add_def)


lemma snapshot_subscribers:
  "snapshot s t k = effectsToRun (Some (subscribers s t k)) (activeEffect s)"
  by (auto simp: snapshot_def subscribers_def subs_of_def effectsToRun_def split: option.splits)

lemma set_snapshot: "set (snapshot s t k) = set (subscribers s t k) - set_option (activeEffect s)"
proof -
  have "set (snapshot s t k) = {e \<in> set (subscribers s t k). Some e \<noteq> activeEffect s}"
    by (simp add: snapshot_subscribers effectsToRun_def fold_set_add_set)
  then show ?thesis by (cases "activeEffect s") auto
qed


lemma new_events_append: "trace s' = trace s @ evs \<Longrightarrow> new_events s s' = evs"
  by (simp add: new_events_def)

lemma trigger_invokes:
  assumes "trigger n t k s = Some (r, s')"
  shows "later_invokes (length (trace s)) (new_events s s')"
    and "prefix (invoked_by (length (trace s)) (new_events s s')) (snapshot s t k)"
    and "normal r \<Longrightarrow> invoked_by (length (trace s)) (new_events s s') = snapshot s t k"
  using run_rel_exec(3)[OF assms] unfolding trigger_rel_def
  by (auto simp: new_events_append)


lemma not_subscribed_not_invoked:
  assumes "trigger n t k s = Some (r, s')" "e \<notin> set (snapshot s t k)"
  shows "e \<notin> set (invoked_by (length (trace s)) (new_events s s'))"
  using trigger_invokes(2)[OF assms(1)] assms(2) set_mono_prefix by blast

lemma enter_drops_self:
  assumes "well_formed s"
  shows "e \<notin> set (subscribers (enter e s) t k)"
  using assms by (auto simp: subscribers_enter well_formed_def)

lemma joins_traverse:
  assumes "traverse v seen s = (r, s')"
  shows "joins_by_track s s'"
  using ec_traverse[OF step_closed_engine[OF closed_joins_by_track] assms] .

lemma effectFn_resubscribes:
  assumes "well_formed s" "effectFn n e s = Some (Inr v, s')" "e \<in> set (subscribers s' t k)"
  shows "EvTrack t k (Some e) \<in> set (new_events s s')"
proof (cases n)
  case 0
  then show ?thesis using assms by simp
next
  case (Suc m)
  have body: "joins_by_track (enter e s) s3 \<Longrightarrow> s' = pop_stack s3 \<Longrightarrow> ?thesis" for s3
  proof -
    assume j: "joins_by_track (enter e s) s3" and s': "s' = pop_stack s3"
    then obtain evs where evs: "trace s3 = trace (enter e s) @ evs"
      "\<forall>x t k. x \<in> set (subscribers s3 t k) \<longrightarrow>
         x \<in> set (subscribers (enter e s) t k) \<or> EvTrack t k (Some x) \<in> set evs"
      by (auto simp: joins_by_track_def)
    have "e \<in> set (subscribers s3 t k)" using assms(3) s' by simp
    then have "EvTrack t k (Some e) \<in> set evs" using evs(2) enter_drops_self[OF assms(1)] by blast
    moreover have "new_events s s' = EvRun e # evs" using evs(1) s' by (simp add: new_events_def)
    ultimately show ?thesis by simp
  qed
  from assms(2) show ?thesis unfolding Suc
  proof (cases rule: effectFn_SucE)
    case invalid
    then show ?thesis by simp
  next
    case (fn_throws p x)
    then show ?thesis by simp
  next
    case (fn_returns p v' s3)
    then show ?thesis using body step_closed_exec(1)[OF closed_joins_by_track] by blast
  next
    case (traverses src v' s3)
    then show ?thesis using body joins_traverse by blast
  qed
qed

text \<open>C1, as the code has it. Let a runner \<open>E\<close> run to its end in a well-formed state, and
  let any user code run after it. If \<^verbatim>\<open>track(t, k)\<close> was not called with \<open>E\<close> as the active
  effect since that run began, then \<open>E\<close> is not in the dependency set of \<open>(t, k)\<close>, and a
  \<^verbatim>\<open>trigger(t, k)\<close> that follows does not pick \<open>E\<close>: it neither runs it nor calls its
  scheduler. The calls of \<^verbatim>\<open>track\<close> with \<open>E\<close> active are those of the run itself and those of
  later code that finds \<open>E\<close> still the active effect.\<close>

theorem stale_dependency_not_triggered:
  assumes "well_formed s"
    and "effectFn n E s = Some (Inr v, s1)"
    and "run q p s1 = Some (r1, s1')"
    and "EvTrack t k (Some E) \<notin> set (new_events s s1')"
    and "trigger m t k s1' = Some (r, s2)"
  shows "E \<notin> set (subscribers s1' t k) \<and>
         E \<notin> set (invoked_by (length (trace s1')) (new_events s1' s2))"
proof -
  from step_closed_exec(1)[OF closed_joins_by_track assms(3)]
  obtain evs where evs: "trace s1' = trace s1 @ evs"
    "\<forall>e t k. e \<in> set (subscribers s1' t k) \<longrightarrow>
       e \<in> set (subscribers s1 t k) \<or> EvTrack t k (Some e) \<in> set evs"
    by (auto simp: joins_by_track_def)
  from trace_exec(7)[OF assms(2)] obtain evs0 where evs0: "trace s1 = trace s @ evs0"
    by (auto simp: prefix_def)
  have ne: "new_events s s1' = evs0 @ evs" "new_events s s1 = evs0"
    using evs(1) evs0 by (simp_all add: new_events_def)
  have "E \<notin> set (subscribers s1 t k)"
    using effectFn_resubscribes[OF assms(1,2)] assms(4) ne by auto
  then have a: "E \<notin> set (subscribers s1' t k)" using evs(2) assms(4) ne by auto
  then have "E \<notin> set (snapshot s1' t k)" by (simp add: set_snapshot)
  then show ?thesis using a not_subscribed_not_invoked[OF assms(5)] by blast
qed


lemma nth_update_static: "f y = f (xs ! i) \<Longrightarrow> f (xs[i := y] ! e) = f (xs ! e)"
  by (metis linorder_not_less list_update_beyond nth_list_update_eq nth_list_update_neq)

lemma static_track [simp]:
  "fn (effs (track t k s) ! e) = fn (effs s ! e)"
  "options (effs (track t k s) ! e) = options (effs s ! e)"
  by (auto simp: track_def Let_def push_dep_def nth_update_static split: option.splits)

lemma static_enter [simp]:
  "fn (effs (enter e' s) ! e) = fn (effs s ! e)"
  "options (effs (enter e' s) ! e) = options (effs s ! e)"
  by (auto simp: enter_def cleanup_def nth_update_static)

lemma trigger_Suc_Suc:
  "trigger (Suc (Suc n)) t k s =
     run_effects (Suc n) (length (trace s)) (snapshot s t k) (emit (EvTrigger t k) s)"
  by (cases "snapshot s t k") (auto simp: snapshot_def effectsToRun_def split: option.splits)

lemma effectFn_Suc_enter:
  "e < length (effs s) \<Longrightarrow> effectFn (Suc n) e s =
     bind_res (case fn (effs s ! e) of
                 Fn p \<Rightarrow> run n p (enter e s)
               | Traverse v \<Rightarrow> (case traverse v [] (enter e s) of (r, s3) \<Rightarrow> Some (Inr r, s3)))
       (\<lambda>res s3. Some (Inr res, pop_stack s3))"
proof -
  assume "e < length (effs s)"
  then have "effectFn (Suc n) e s =
     bind_res (case fn (effs (enter e s) ! e) of
                 Fn p \<Rightarrow> run n p (enter e s)
               | Traverse v \<Rightarrow> (case traverse v [] (enter e s) of (r, s3) \<Rightarrow> Some (Inr r, s3)))
       (\<lambda>res s3. Some (Inr res, pop_stack s3))"
    unfolding effectFn.simps Let_def enter_def[symmetric] by simp
  then show ?thesis by simp
qed

lemma bind_res_simps [simp]:
  "bind_res None f = None"
  "bind_res (Some (Inl x, s)) f = Some (Inl x, s)"
  "bind_res (Some (Inr a, s)) f = f a s"
  by (simp_all add: bind_res_def)

lemma read_write_data [simp]: "map_of (write_data k v d) k = Some v"
  by (induction d) auto



lemma returnsD: "returns x \<Longrightarrow> \<exists>a. x = Some (Inr a, state_of x)"
  by (auto simp: returns_def state_of_def split: option.splits sum.splits)

lemma throwsD: "throws x \<Longrightarrow> \<exists>a. x = Some (Inl a, state_of x)"
  by (auto simp: throws_def state_of_def split: option.splits sum.splits)

lemma well_formed_init: "well_formed (init d)"
  by (simp add: well_formed_def init_def subscribers_def subs_of_def)

lemma well_formed_new_effect:
  assumes "well_formed s"
  shows "well_formed (s\<lparr>effs := effs s @ [\<lparr>fn = f, options = opts, deps = []\<rparr>]\<rparr>)"
  using assms unfolding well_formed_def
  by (auto simp: subscribers_def nth_append less_Suc_eq)

lemma well_formed_effect:
  assumes "well_formed s" "effect n f opts s = Some (r, s')"
  shows "well_formed s'"
  using assms(2) well_formed_new_effect[OF assms(1), of f opts]
  by (auto simp: effect_def Let_def bind_res_Some_iff split: if_splits dest: well_formed_exec(7))

lemma well_formed_state_of_effect:
  "well_formed s \<Longrightarrow> well_formed (state_of (effect n f opts s))"
  using well_formed_effect well_formed_init
  by (cases "effect n f opts s") (auto simp: state_of_def)


lemma same_shape_nth:
  assumes "same_shape s s'" "e < length (effs s)"
  shows "fn (effs s' ! e) = fn (effs s ! e)" "options (effs s' ! e) = options (effs s ! e)"
  using assms unfolding same_shape_def by (metis length_map nth_map)+

lemmas same_shape_exec = step_closed_exec[OF closed_same_shape]

lemma effect_registers:
  assumes "effect n f opts s = Some (r, s')"
  shows "fn (effs s' ! length (effs s)) = f" "options (effs s' ! length (effs s)) = opts"
proof -
  let ?s1 = "s\<lparr>effs := effs s @ [\<lparr>fn = f, options = opts, deps = []\<rparr>]\<rparr>"
  have "same_shape ?s1 s'"
    using assms same_shape_exec(7)[of n "length (effs s)" ?s1]
    by (auto simp: effect_def Let_def bind_res_Some_iff split: if_splits)
  from same_shape_nth[OF this, of "length (effs s)"]
  show "fn (effs s' ! length (effs s)) = f" "options (effs s' ! length (effs s)) = opts"
    by simp_all
qed

lemma effect_registers_state_of:
  assumes "returns (effect n f opts s)"
  shows "fn (effs (state_of (effect n f opts s)) ! length (effs s)) = f"
  using effect_registers(1) returnsD[OF assms] by blast

lemma well_formed_data [simp]: "well_formed (s\<lparr>data := d\<rparr>) = well_formed s"
  by (simp add: well_formed_def)

theorem stale_dependency_not_triggered_witness:
  "returns (effectFn 6 0 branch_off) \<and>
   0 \<in> set (subscribers branch_off Data ''text'') \<and>
   EvTrack Data ''text'' (Some 0) \<notin> set (new_events branch_off (state_of (effectFn 6 0 branch_off))) \<and>
   returns (trigger 5 Data ''text'' (state_of (effectFn 6 0 branch_off))) \<and>
   0 \<notin> set (subscribers (state_of (effectFn 6 0 branch_off)) Data ''text'') \<and>
   0 \<notin> set (invoked_by (length (trace (state_of (effectFn 6 0 branch_off))))
          (new_events (state_of (effectFn 6 0 branch_off))
             (state_of (trigger 5 Data ''text'' (state_of (effectFn 6 0 branch_off))))))"
proof -
  let ?s1 = "state_of (effectFn 6 0 branch_off)"
  have wf: "well_formed branch_off"
    unfolding branch_off_def branch_state_def
    by (simp add: well_formed_state_of_effect well_formed_init)
  have r1: "returns (effectFn 6 0 branch_off)" by code_simp
  then obtain v where h1: "effectFn 6 0 branch_off = Some (Inr v, ?s1)" using returnsD by blast
  have h2: "run 1 (Return Undefined) ?s1 = Some (Inr Undefined, ?s1)" by (simp add: numeral_eq_Suc)
  have h3: "EvTrack Data ''text'' (Some 0) \<notin> set (new_events branch_off ?s1)" by code_simp
  have r4: "returns (trigger 5 Data ''text'' ?s1)" by code_simp
  then obtain u where h4: "trigger 5 Data ''text'' ?s1 = Some (Inr u, state_of (trigger 5 Data ''text'' ?s1))"
    using returnsD by blast
  have before: "0 \<in> set (subscribers branch_off Data ''text'')" by code_simp
  show ?thesis
    using stale_dependency_not_triggered[OF wf h1 h2 h3 h4] r1 h3 r4 before by simp
qed


lemmas stack_exec = engine_induct[OF closed_stack_rel, rule_format]

lemma top_of_enter: "act_top (enter e s)"
  by (simp add: act_top_def)

text \<open>C7, as the code has it, for wrapped functions made of the operations of \<^typ>\<open>prog\<close>, which
  have no exception handler. The runner has no \<^verbatim>\<open>try\<close>/\<^verbatim>\<open>finally\<close>. When the wrapped
  function returns, the runner pops the stack and makes the new top the active effect: the
  stack is the stack at entry. When the wrapped function throws, the runner throws the same
  value and leaves the state as the throw left it: the stack still holds the stack at
  entry followed by the throwing effect, and the active effect is the top of that stack,
  not the effect that was active at entry.\<close>

theorem runner_restores_only_on_return:
  assumes "e < length (effs s)" "fn (effs s ! e) = Fn p" "run n p (enter e s) = Some (r, s3)"
  shows "case r of
           Inr v \<Rightarrow> effectFn (Suc n) e s = Some (Inr v, pop_stack s3) \<and>
                    effectStack (pop_stack s3) = effectStack s \<and>
                    activeEffect (pop_stack s3) =
                      (if effectStack s = [] then None else Some (last (effectStack s)))
         | Inl x \<Rightarrow> effectFn (Suc n) e s = Some (Inl x, s3) \<and>
                    prefix (effectStack s @ [e]) (effectStack s3) \<and>
                    activeEffect s3 = Some (last (effectStack s3))"
proof (cases r)
  case (Inr v)
  have "stack_rel True (enter e s) s3" using stack_exec(1)[OF assms(3)] Inr by simp
  then have st: "effectStack s3 = effectStack s @ [e]" by (simp add: stack_rel_def)
  have "effectFn (Suc n) e s = Some (Inr v, pop_stack s3)"
    using assms Inr by (simp add: effectFn_Suc_enter del: effectFn.simps)
  then show ?thesis using Inr st by simp
next
  case (Inl x)
  have "stack_rel False (enter e s) s3" using stack_exec(1)[OF assms(3)] Inl by simp
  then have st: "prefix (effectStack s @ [e]) (effectStack s3)" "act_top s3"
    using top_of_enter by (simp_all add: stack_rel_def)
  then have ne: "effectStack s3 \<noteq> []" by (auto simp: prefix_def)
  have "effectFn (Suc n) e s = Some (Inl x, s3)"
    using assms Inl by (simp add: effectFn_Suc_enter del: effectFn.simps)
  then show ?thesis using Inl st ne by (simp add: act_top_def)
qed

theorem runner_restores_only_on_return_witness:
  "0 < length (effs throwing_effect) \<and> fn (effs throwing_effect ! 0) = Fn (Throw (Str ''boom'')) \<and>
   run 1 (Throw (Str ''boom'')) (enter 0 throwing_effect) = Some (Inl (Str ''boom''), enter 0 throwing_effect) \<and>
   effectFn 2 0 throwing_effect = Some (Inl (Str ''boom''), enter 0 throwing_effect) \<and>
   prefix (effectStack throwing_effect @ [0]) (effectStack (enter 0 throwing_effect)) \<and>
   activeEffect (enter 0 throwing_effect) = Some (last (effectStack (enter 0 throwing_effect)))"
proof -
  have a: "0 < length (effs throwing_effect)" by code_simp
  have "returns (effect 3 (Fn (Throw (Str ''boom''))) \<lparr>scheduler = None, lazy = True\<rparr> (init []))"
    by code_simp
  from effect_registers_state_of[OF this]
  have b: "fn (effs throwing_effect ! 0) = Fn (Throw (Str ''boom''))"
    by (simp add: throwing_effect_def init_def)
  have c: "run 1 (Throw (Str ''boom'')) (enter 0 throwing_effect) =
      Some (Inl (Str ''boom''), enter 0 throwing_effect)" by simp
  show ?thesis
    using runner_restores_only_on_return[OF a b c] a b c by (simp add: numeral_2_eq_2)
qed

text \<open>The claim as stated fails: a runner whose function throws leaves itself on the stack
  and as the active effect, where before the call the stack was empty and no effect was
  active.\<close>

theorem throw_leaves_stale_active_effect:
  "effectStack throwing_effect = [] \<and> activeEffect throwing_effect = None \<and>
   throws (effectFn 2 0 throwing_effect) \<and>
   effectStack (state_of (effectFn 2 0 throwing_effect)) = [0] \<and>
   activeEffect (state_of (effectFn 2 0 throwing_effect)) = Some 0"
  by code_simp






lemma step_closed_flush_jobs:
  assumes sc: "step_closed R"
  shows "flush_jobs n i s = Some (r, s') \<Longrightarrow> R s s'"
proof (induction n arbitrary: i s)
  case 0
  then show ?case by simp
next
  case (Suc n)
  show ?case
  proof (cases "i < length (jobQueue s)")
    case True
    with Suc.prems consider x where "effectFn n (jobQueue s ! i) s = Some (Inl x, s')"
      | v s1 where "effectFn n (jobQueue s ! i) s = Some (Inr v, s1)" "flush_jobs n (Suc i) s1 = Some (r, s')"
      by (auto simp: bind_res_Some_iff)
    then show ?thesis
    proof cases
      case 1
      then show ?thesis using step_closed_exec(7)[OF sc] by blast
    next
      case 2
      then show ?thesis using step_closed_exec(7)[OF sc 2(1)] Suc.IH[OF 2(2)] sc_trans[OF sc] by blast
    qed
  next
    case False
    then show ?thesis using Suc.prems sc_refl[OF sc] by simp
  qed
qed



lemma prefix_self_append_last: "xs = ys @ [x] \<Longrightarrow> last xs = x"
  by simp




lemma ntrig_simps [simp]:
  "ntrig c [] = 0" "ntrig c (xs @ ys) = ntrig c xs + ntrig c ys"
  "ntrig c (ev # evs) = (if ev = EvTrigger (Handle c) ''value'' then 1 else 0) + ntrig c evs"
  by (simp_all add: ntrig_def)

lemma dirty_of_simps [simp]:
  "dirty_of c (emit ev s) = dirty_of c s"
  "dirty_of c (track t k s) = dirty_of c s"
  "dirty_of c (s\<lparr>data := d\<rparr>) = dirty_of c s"
  "dirty_of c (enter e s) = dirty_of c s"
  "dirty_of c (pop_stack s) = dirty_of c s"
  "dirty_of c (set_newValue w v s) = dirty_of c s"
  "dirty_of c (set_oldValue w v s) = dirty_of c s"
  "dirty_of c (flushJob s) = dirty_of c s"
  "dirty_of c (s\<lparr>jobQueue := q\<rparr>) = dirty_of c s"
  "dirty_of c (s\<lparr>microtasks := m\<rparr>) = dirty_of c s"
  by (simp_all add: dirty_of_def)


lemma dirty_of_set_c_value [simp]: "dirty_of c (set_c_value c' v s) = dirty_of c s"
  by (cases "c' = c") (auto simp: dirty_of_def set_c_value_def)








lemma read_data_lookup: "read_data s k = lookup (data s) k"
  by (simp add: read_data_def lookup_def)

lemma quiet_run_data [simp]: "data (quiet_run p s) = data s"
  by (induction p arbitrary: s) auto

lemma run_quiet:
  "quiet p \<Longrightarrow> run (Suc (depth p (data s) + n)) p s = Some (Inr (result_of p (data s)), quiet_run p s)"
proof (induction p arbitrary: s)
  case (Get k f)
  have q: "quiet (f (lookup (data s) k))" using Get.prems by simp
  have "f (lookup (data s) k) \<in> range f" by simp
  from Get.IH[OF this q, of "track Data k s"] show ?case by (simp add: read_data_lookup)
next
  case (Log v p)
  from Log.IH[of "emit (EvLog v) s"] Log.prems show ?case by simp
qed auto

lemma quiet_run_fields [simp]:
  "activeEffect (quiet_run p s) = activeEffect s" "effectStack (quiet_run p s) = effectStack s"
  "jobQueue (quiet_run p s) = jobQueue s" "isFlushing (quiet_run p s) = isFlushing s"
  "comps (quiet_run p s) = comps s" "watches (quiet_run p s) = watches s"
  "microtasks (quiet_run p s) = microtasks s" "length (effs (quiet_run p s)) = length (effs s)"
  by (induction p arbitrary: s) auto

lemma quiet_run_trace:
  "trace (quiet_run p s) = trace s @ quiet_trace p (data s) (activeEffect s)"
  by (induction p arbitrary: s) auto

lemma quiet_run_static [simp]:
  "fn (effs (quiet_run p s) ! e) = fn (effs s ! e)"
  "options (effs (quiet_run p s) ! e) = options (effs s ! e)"
  by (induction p arbitrary: s) auto

text \<open>The claim as stated fails: in the state \<open>stale_moment\<close>, which the effect observes
  when the write \<^verbatim>\<open>obj.foo = 5\<close> runs it, the getter returns 5 and a read of the computed
  value returns the cached 1. The whole write logs 1 and then 5.\<close>

theorem computed_read_can_be_stale:
  "read_data stale_moment ''foo'' = Num 5 \<and>
   \<not> dirty (comps stale_moment ! 0) \<and>
   (case run 2 (Get ''foo'' Return) stale_moment of Some (Inr v, _) \<Rightarrow> v = Num 5 | _ \<Rightarrow> False) \<and>
   (case computed_value 2 0 stale_moment of Some (Inr v, _) \<Rightarrow> v = Num 1 | _ \<Rightarrow> False) \<and>
   returns (run 20 (Put ''foo'' (Num 5) (Return Undefined)) stale_reader) \<and>
   logged (new_events stale_reader
      (state_of (run 20 (Put ''foo'' (Num 5) (Return Undefined)) stale_reader))) = [Num 1, Num 5]"
  by code_simp

text \<open>C4, as the code has it. A read of \<^verbatim>\<open>c.value\<close> that returns has called
  \<^verbatim>\<open>track(c, 'value')\<close>, leaves the dirty flag clear and the returned value in the cache.
  When the flag was set the value is the one the inner effect returned at this read; when
  the flag was clear it is the cached value, the state changes by the track only and the
  getter is not run. For a getter that only reads properties, any read with enough fuel
  returns: the getter's value on the current data when the flag was set, the cache when
  it was clear (which is the value of the last recomputation and can be stale). The
  scheduler, when the flag is clear, sets the flag and calls \<^verbatim>\<open>trigger(c, 'value')\<close>; it
  never runs the getter itself.\<close>

theorem computed_read:
  "(c < length (comps s) \<and> computed_value (Suc n) c s = Some (Inr v, s') \<longrightarrow>
      \<not> dirty (comps s' ! c) \<and> c_value (comps s' ! c) = v \<and>
      (\<exists>a. EvTrack (Handle c) ''value'' a \<in> set (new_events s s')) \<and>
      (dirty (comps s ! c) \<longrightarrow>
         (\<exists>s1. effectFn n (c_effect (comps s ! c)) (emit (EvValue c) s) = Some (Inr v, s1))) \<and>
      (\<not> dirty (comps s ! c) \<longrightarrow>
         v = c_value (comps s ! c) \<and> s' = track (Handle c) ''value'' (emit (EvValue c) s))) \<and>
   (c < length (comps s) \<and> c_effect (comps s ! c) < length (effs s) \<and>
    fn (effs s ! c_effect (comps s ! c)) = Fn g \<and> quiet g \<longrightarrow>
      (\<exists>s'. computed_value (depth g (data s) + m + 3) c s =
         Some (Inr (if dirty (comps s ! c) then result_of g (data s) else c_value (comps s ! c)), s'))) \<and>
   (c < length (comps s) \<and> \<not> dirty (comps s ! c) \<longrightarrow>
      call_scheduler (Suc n) (ComputedScheduler c) e s =
        trigger n (Handle c) ''value'' (set_dirty c True s))"
proof (intro conjI impI)
  assume h: "c < length (comps s) \<and> computed_value (Suc n) c s = Some (Inr v, s')"
  then have c: "c < length (comps s)" and cv: "computed_value (Suc n) c s = Some (Inr v, s')"
    by auto
  from cv have main: "\<not> dirty (comps s' ! c) \<and> c_value (comps s' ! c) = v \<and>
      (\<exists>a. EvTrack (Handle c) ''value'' a \<in> set (new_events s s')) \<and>
      (dirty (comps s ! c) \<longrightarrow>
         (\<exists>s1. effectFn n (c_effect (comps s ! c)) (emit (EvValue c) s) = Some (Inr v, s1))) \<and>
      (\<not> dirty (comps s ! c) \<longrightarrow>
         v = c_value (comps s ! c) \<and> s' = track (Handle c) ''value'' (emit (EvValue c) s))"
  proof (cases rule: computed_value_SucE)
    case invalid
    then show ?thesis by simp
  next
    case (throws x)
    then show ?thesis by simp
  next
    case (recomputed w s1)
    have len: "c < length (comps s1)"
      using same_shape_lengths(2)[OF same_shape_exec(7)[OF recomputed(3)]] c by simp
    have tr: "prefix (trace (emit (EvValue c) s)) (trace s1)" using trace_exec(7)[OF recomputed(3)] .
    have v: "v = w" using recomputed len by (simp add: set_dirty_def set_c_value_def)
    have "EvTrack (Handle c) ''value'' (activeEffect s1) \<in> set (new_events s s')"
      using tr recomputed(4) by (auto simp: prefix_def new_events_def)
    then show ?thesis using recomputed len v
      by (auto simp: set_dirty_def set_c_value_def)
  next
    case cached
    then show ?thesis by (auto simp: new_events_def)
  qed
  show "\<not> dirty (comps s' ! c)" using main by blast
  show "c_value (comps s' ! c) = v" using main by blast
  show "\<exists>a. EvTrack (Handle c) ''value'' a \<in> set (new_events s s')" using main by blast
  show "\<exists>s1. effectFn n (c_effect (comps s ! c)) (emit (EvValue c) s) = Some (Inr v, s1)"
    if "dirty (comps s ! c)" using main that by blast
  show "v = c_value (comps s ! c)" if "\<not> dirty (comps s ! c)" using main that by blast
  show "s' = track (Handle c) ''value'' (emit (EvValue c) s)" if "\<not> dirty (comps s ! c)"
    using main that by blast
next
  assume h: "c < length (comps s) \<and> c_effect (comps s ! c) < length (effs s) \<and>
    fn (effs s ! c_effect (comps s ! c)) = Fn g \<and> quiet g"
  have f: "depth g (data s) + m + 3 = Suc (Suc (Suc (depth g (data s) + m)))" by simp
  show "\<exists>s'. computed_value (depth g (data s) + m + 3) c s =
         Some (Inr (if dirty (comps s ! c) then result_of g (data s) else c_value (comps s ! c)), s')"
    unfolding f using h run_quiet[of g "enter (c_effect (comps s ! c)) (emit (EvValue c) s)" m]
    by (simp add: effectFn_Suc_enter Let_def set_dirty_def set_c_value_def del: effectFn.simps)
next
  assume "c < length (comps s) \<and> \<not> dirty (comps s ! c)"
  then show "call_scheduler (Suc n) (ComputedScheduler c) e s =
        trigger n (Handle c) ''value'' (set_dirty c True s)" by simp
qed

lemma computed_registers:
  assumes "computed n g s = Some (r, s')"
  shows "r = Inr (length (comps s))" "length (comps s') = Suc (length (comps s))"
    "c_effect (comps s' ! length (comps s)) = length (effs s)"
    "dirty (comps s' ! length (comps s))"
    "length (effs s') = Suc (length (effs s))"
    "fn (effs s' ! length (effs s)) = Fn g"
    "options (effs s' ! length (effs s)) = \<lparr>scheduler = Some (ComputedScheduler (length (comps s))), lazy = True\<rparr>"
  using assms
  by (auto simp: computed_def effect_def Let_def bind_res_Some_iff nth_append)

theorem computed_read_witness:
  "\<not> dirty (comps stale_moment ! 0) \<and>
   returns (computed_value (Suc 1) 0 stale_moment) \<and>
   c_value (comps (state_of (computed_value (Suc 1) 0 stale_moment)) ! 0) = Num 1 \<and>
   state_of (computed_value (Suc 1) 0 stale_moment) =
     track (Handle 0) ''value'' (emit (EvValue 0) stale_moment) \<and>
   dirty (comps fresh_computed ! 0) \<and>
   (\<exists>s'. computed_value 4 0 fresh_computed = Some (Inr (Num 1), s')) \<and>
   call_scheduler (Suc 1) (ComputedScheduler 0) 0 stale_moment =
     trigger 1 (Handle 0) ''value'' (set_dirty 0 True stale_moment)"
proof -
  have a: "0 < length (comps stale_moment)" "\<not> dirty (comps stale_moment ! 0)" by code_simp+
  have r: "returns (computed_value (Suc 1) 0 stale_moment)" by code_simp
  then obtain v where h: "computed_value (Suc 1) 0 stale_moment =
      Some (Inr v, state_of (computed_value (Suc 1) 0 stale_moment))" using returnsD by blast
  have cv: "c_value (comps stale_moment ! 0) = Num 1" by code_simp
  have "returns (computed 1 (Get ''foo'' Return) (init [(''foo'', Num 1)]))" by code_simp
  then obtain x where reg: "computed 1 (Get ''foo'' Return) (init [(''foo'', Num 1)]) =
      Some (Inr x, fresh_computed)" using returnsD unfolding fresh_computed_def by blast
  have b: "0 < length (comps fresh_computed)" "c_effect (comps fresh_computed ! 0) < length (effs fresh_computed)"
    "fn (effs fresh_computed ! c_effect (comps fresh_computed ! 0)) = Fn (Get ''foo'' Return)"
    "dirty (comps fresh_computed ! 0)"
    using computed_registers[OF reg] by (simp_all add: init_def)
  have q: "quiet (Get ''foo'' Return)" by simp
  have d: "data fresh_computed = [(''foo'', Num 1)]" by code_simp
  let ?s1 = "state_of (computed_value (Suc 1) 0 stale_moment)"
  note T1 = computed_read[where c=0 and s=stale_moment and n=1 and v=v and s'="?s1" and e=0]
  note T2 = computed_read[where c=0 and s=fresh_computed and g="Get ''foo'' Return" and m=0]
  have p1: "c_value (comps ?s1 ! 0) = v" "v = c_value (comps stale_moment ! 0)"
    "?s1 = track (Handle 0) ''value'' (emit (EvValue 0) stale_moment)"
    using T1 a h by blast+
  have p3: "call_scheduler (Suc 1) (ComputedScheduler 0) 0 stale_moment =
     trigger 1 (Handle 0) ''value'' (set_dirty 0 True stale_moment)"
    using T1 a by blast
  have "\<exists>s'. computed_value (depth (Get ''foo'' Return) (data fresh_computed) + 0 + 3) 0 fresh_computed =
      Some (Inr (if dirty (comps fresh_computed ! 0)
                 then result_of (Get ''foo'' Return) (data fresh_computed)
                 else c_value (comps fresh_computed ! 0)), s')"
    using T2 b q by blast
  then have p2: "\<exists>s'. computed_value 4 0 fresh_computed = Some (Inr (Num 1), s')"
    using b(4) d by (simp add: lookup_def)
  show ?thesis using a r p1 cv b(4) p2 p3 by simp
qed

lemma callbacks_simps [simp]:
  "callbacks [] = []" "callbacks (xs @ ys) = callbacks xs @ callbacks ys"
  "callbacks (EvCallback w a b # evs) = (w, a, b) # callbacks evs"
  "callbacks (EvRun e # evs) = callbacks evs" "callbacks (EvTrack t k x # evs) = callbacks evs"
  "callbacks (EvLog v # evs) = callbacks evs"
  by (simp_all add: callbacks_def)

lemma runs_simps [simp]:
  "runs [] = []" "runs (xs @ ys) = runs xs @ runs ys"
  "runs (EvRun e # evs) = e # runs evs"
  "runs (EvCallback w a b # evs) = runs evs" "runs (EvTrack t k x # evs) = runs evs"
  "runs (EvLog v # evs) = runs evs"
  by (simp_all add: runs_def)

lemma quiet_trace_silent [simp]:
  "callbacks (quiet_trace p d a) = []" "runs (quiet_trace p d a) = []"
  by (induction p) auto

lemma tracks_silent [simp]:
  "callbacks (map (\<lambda>k. EvTrack Data k a) ks) = []" "runs (map (\<lambda>k. EvTrack Data k a) ks) = []"
  by (induction ks) auto

lemma source_trace_silent [simp]:
  "callbacks (source_trace src d a) = []" "runs (source_trace src d a) = []"
  by (auto simp: source_trace_def simp del: map_map split: source.splits)

lemma fold_track_fields [simp]:
  "data (fold (\<lambda>k. track Data k) ks s) = data s"
  "activeEffect (fold (\<lambda>k. track Data k) ks s) = activeEffect s"
  "effectStack (fold (\<lambda>k. track Data k) ks s) = effectStack s"
  "jobQueue (fold (\<lambda>k. track Data k) ks s) = jobQueue s"
  "isFlushing (fold (\<lambda>k. track Data k) ks s) = isFlushing s"
  "comps (fold (\<lambda>k. track Data k) ks s) = comps s"
  "watches (fold (\<lambda>k. track Data k) ks s) = watches s"
  "microtasks (fold (\<lambda>k. track Data k) ks s) = microtasks s"
  "length (effs (fold (\<lambda>k. track Data k) ks s)) = length (effs s)"
  "trace (fold (\<lambda>k. track Data k) ks s) = trace s @ map (\<lambda>k. EvTrack Data k (activeEffect s)) ks"
  by (induction ks arbitrary: s) auto

lemma source_run_fields [simp]:
  "data (source_run src s) = data s"
  "activeEffect (source_run src s) = activeEffect s"
  "effectStack (source_run src s) = effectStack s"
  "jobQueue (source_run src s) = jobQueue s"
  "isFlushing (source_run src s) = isFlushing s"
  "comps (source_run src s) = comps s"
  "watches (source_run src s) = watches s"
  "microtasks (source_run src s) = microtasks s"
  "length (effs (source_run src s)) = length (effs s)"
  "trace (source_run src s) = trace s @ source_trace src (data s) (activeEffect s)"
  by (auto simp: source_run_def source_trace_def traverse_def quiet_run_trace split: source.splits)



lemma watch_registered_fields [simp]:
  "data (watch_registered src f opts s) = data s"
  "trace (watch_registered src f opts s) = trace s"
  "length (effs (watch_registered src f opts s)) = Suc (length (effs s))"
  "length (watches (watch_registered src f opts s)) = Suc (length (watches s))"
  "fn (effs (watch_registered src f opts s) ! length (effs s)) = getter_of src"
  "w_effect (watches (watch_registered src f opts s) ! length (watches s)) = length (effs s)"
  "cb (watches (watch_registered src f opts s) ! length (watches s)) = f"
  "oldValue (watches (watch_registered src f opts s) ! length (watches s)) = Undefined"
  by (simp_all add: watch_registered_def)








lemma write_step_fields [simp]:
  "data (write_step k E v s) = write_data k v (data s)"
  "bucket (write_step k E v s) = bucket s"
  "activeEffect (write_step k E v s) = activeEffect s"
  "effectStack (write_step k E v s) = effectStack s"
  "effs (write_step k E v s) = effs s"
  "comps (write_step k E v s) = comps s"
  "watches (write_step k E v s) = watches s"
  "jobQueue (write_step k E v s) = set_add E (jobQueue s)"
  "isFlushing (write_step k E v s)"
  "microtasks (write_step k E v s) = (if isFlushing s then microtasks s else microtasks s @ [FlushTask])"
  "trace (write_step k E v s) = trace s @ [EvTrigger Data k, EvInvoke (length (trace s)) E]"
  by (simp_all add: write_step_def flushJob_def)

lemma subscribers_write_step [simp]: "subscribers (write_step k E v s) = subscribers s"
  by (simp add: subscribers_def fun_eq_iff)

lemma one_write:
  assumes "subscribers s Data k = [E]" "activeEffect s \<noteq> Some E" "E < length (effs s)"
    "scheduler (options (effs s ! E)) = Some JobQueueScheduler"
  shows "run (n + 4) (Put k v p) s = run (n + 3) p (write_step k E v s)"
proof -
  have a: "Some E \<noteq> activeEffect s" using assms(2) by auto
  have n4: "n + 4 = Suc (Suc (Suc (Suc n)))" "n + 3 = Suc (Suc (Suc n))" by simp_all
  show ?thesis
    unfolding n4 using assms a
    by (simp add: trigger_Suc_Suc snapshot_subscribers effectsToRun_def set_add_def write_step_def
        del: trigger.simps)
qed

lemma run_writes:
  assumes "subscribers s Data k = [E]" "activeEffect s \<noteq> Some E" "E < length (effs s)"
    "scheduler (options (effs s ! E)) = Some JobQueueScheduler"
  shows "run (length vs + 3 + n) (writes k vs) s = Some (Inr Undefined, fold (write_step k E) vs s)"
  using assms
proof (induction vs arbitrary: s)
  case Nil
  then show ?case by (simp add: writes_def numeral_3_eq_3)
next
  case (Cons v vs)
  have f: "length (v # vs) + 3 + n = (length vs + n) + 4" "length vs + n + 3 = length vs + 3 + n"
    by simp_all
  have "run (length (v # vs) + 3 + n) (writes k (v # vs)) s =
        run (length vs + 3 + n) (writes k vs) (write_step k E v s)"
    unfolding f(1) using one_write[OF Cons.prems, of "length vs + n" v "writes k vs"]
    by (simp add: writes_def f(2))
  also have "\<dots> = Some (Inr Undefined, fold (write_step k E) vs (write_step k E v s))"
    using Cons.prems by (intro Cons.IH) simp_all
  finally show ?case by simp
qed

lemma fold_write_step_fields [simp]:
  "bucket (fold (write_step k E) vs s) = bucket s"
  "activeEffect (fold (write_step k E) vs s) = activeEffect s"
  "effectStack (fold (write_step k E) vs s) = effectStack s"
  "effs (fold (write_step k E) vs s) = effs s"
  "comps (fold (write_step k E) vs s) = comps s"
  "watches (fold (write_step k E) vs s) = watches s"
  by (induction vs arbitrary: s) simp_all

lemma fold_write_step_trace:
  "\<exists>evs. trace (fold (write_step k E) vs s) = trace s @ evs \<and> runs evs = [] \<and>
         invokes evs = replicate (length vs) E"
proof (induction vs arbitrary: s)
  case (Cons v vs)
  from Cons[of "write_step k E v s"] show ?case by (auto simp: runs_def invokes_def)
qed (simp add: invokes_def)

lemma fold_write_step_pending:
  assumes "vs \<noteq> []" "\<not> isFlushing s" "microtasks s = []" "jobQueue s = [] \<or> jobQueue s = [E]"
  shows "isFlushing (fold (write_step k E) vs s) \<and>
         microtasks (fold (write_step k E) vs s) = [FlushTask] \<and>
         jobQueue (fold (write_step k E) vs s) = [E] \<and>
         lookup (data (fold (write_step k E) vs s)) k = last vs"
  using assms(1)
proof (induction vs rule: rev_induct)
  case (snoc v vs)
  show ?case
  proof (cases "vs = []")
    case True
    then show ?thesis using assms(2-4) by (auto simp: set_add_def lookup_def)
  next
    case False
    from snoc.IH[OF this] show ?thesis by (simp add: set_add_def lookup_def)
  qed
qed simp

lemma flush_one:
  assumes "E < length (effs s)" "fn (effs s ! E) = Fn g" "quiet g" "jobQueue s = [E]"
  shows "flush_jobs (depth g (data s) + 3 + n) 0 s = Some (Inr (), pop_stack (quiet_run g (enter E s)))"
proof -
  have f: "depth g (data s) + 3 + n = Suc (Suc (Suc (depth g (data s) + n)))" by simp
  have r: "run (Suc (depth g (data s) + n)) g (enter E s) =
           Some (Inr (result_of g (data s)), quiet_run g (enter E s))"
    using run_quiet[OF assms(3), of "enter E s" n] by simp
  show ?thesis
    unfolding f using assms(1,2,4) r
    by (simp add: effectFn_Suc_enter del: effectFn.simps)
qed

lemma run_microtasks_done: "microtasks s = [] \<Longrightarrow> run_microtasks (Suc n) s = Some s"
  by simp

lemma run_microtasks_step:
  "microtasks s = t # ts \<Longrightarrow> run_task n t (s\<lparr>microtasks := ts\<rparr>) = Some s' \<Longrightarrow>
   run_microtasks (Suc n) s = run_microtasks n s'"
  by simp

lemma run_microtasks_flush:
  assumes "E < length (effs s)" "fn (effs s ! E) = Fn g" "quiet g" "jobQueue s = [E]"
    "microtasks s = [FlushTask]"
  shows "run_microtasks (depth g (data s) + 6 + n) s = Some (flushed E g s)"
proof -
  let ?s0 = "s\<lparr>microtasks := []\<rparr>"
  let ?s1 = "pop_stack (quiet_run g (enter E ?s0))"
  let ?s2 = "?s1\<lparr>microtasks := [FinallyTask None]\<rparr>"
  define N where "N = depth g (data s) + 3 + n"
  have f: "depth g (data s) + 6 + n = Suc (Suc (Suc N))"
    "depth g (data ?s0) + 3 + Suc (Suc n) = Suc (Suc N)"
    by (simp_all add: N_def)
  have fl: "flush_jobs (Suc (Suc N)) 0 ?s0 = Some (Inr (), ?s1)"
    unfolding f(2)[symmetric] using assms(1,2,4) by (intro flush_one[OF _ _ assms(3)]) simp_all
  have t1: "run_task (Suc (Suc N)) FlushTask ?s0 = Some ?s2"
    using fl by (simp add: run_task_def del: flush_jobs.simps)
  have t2: "run_task (Suc N) (FinallyTask None) (?s2\<lparr>microtasks := []\<rparr>) = Some (flushed E g s)"
    by (simp add: run_task_def flushed_def)
  have "run_microtasks (Suc (Suc (Suc N))) s = run_microtasks (Suc (Suc N)) ?s2"
    using assms(5) t1 by (rule run_microtasks_step)
  also have "\<dots> = run_microtasks (Suc N) (flushed E g s)"
    by (rule run_microtasks_step[OF _ t2]) simp
  also have "\<dots> = Some (flushed E g s)"
    by (rule run_microtasks_done) (simp add: flushed_def)
  finally show ?thesis unfolding f(1) .
qed

lemma flushed_fields [simp]:
  "data (flushed E g s) = data s" "\<not> isFlushing (flushed E g s)" "microtasks (flushed E g s) = []"
  "jobQueue (flushed E g s) = jobQueue s"
  "trace (flushed E g s) = trace s @ EvRun E # quiet_trace g (data s) (Some E)"
  by (simp_all add: flushed_def quiet_run_trace)

text \<open>The plain case of batching. Take an effect \<open>E\<close> registered with the batching scheduler whose function only
  reads, logs and returns, the only subscriber of property \<open>k\<close>, at a moment when no flush
  is pending. Any number of writes to \<open>k\<close> in one synchronous stretch, at least one, return
  normally; each write picks \<open>E\<close> and none runs an effect; they leave \<open>E\<close> once in the queue,
  the flag \<^verbatim>\<open>isFlushing\<close> set and exactly one flush microtask. Running the microtasks then
  executes \<open>E\<close> exactly once, on the data that hold the last value written to \<open>k\<close>, and
  clears the flag.\<close>

lemma batched_writes_run_once:
  assumes "batched k E g s" "vs \<noteq> []"
  shows "\<exists>s1 s2. run (length vs + 3 + n) (writes k vs) s = Some (Inr Undefined, s1) \<and>
           invokes (new_events s s1) = replicate (length vs) E \<and>
           runs (new_events s s1) = [] \<and>
           jobQueue s1 = [E] \<and> isFlushing s1 \<and> microtasks s1 = [FlushTask] \<and>
           lookup (data s1) k = last vs \<and>
           run_microtasks (depth g (data s1) + 6 + m) s1 = Some s2 \<and>
           new_events s1 s2 = EvRun E # quiet_trace g (data s1) (Some E) \<and>
           runs (new_events s1 s2) = [E] \<and>
           data s2 = data s1 \<and> \<not> isFlushing s2 \<and> microtasks s2 = []"
proof -
  let ?s1 = "fold (write_step k E) vs s"
  let ?s2 = "flushed E g ?s1"
  have b: "subscribers s Data k = [E]" "activeEffect s \<noteq> Some E" "E < length (effs s)"
    "scheduler (options (effs s ! E)) = Some JobQueueScheduler"
    "fn (effs s ! E) = Fn g" "quiet g" "\<not> isFlushing s" "microtasks s = []"
    "jobQueue s = [] \<or> jobQueue s = [E]"
    using assms(1) by (simp_all add: batched_def)
  have r: "run (length vs + 3 + n) (writes k vs) s = Some (Inr Undefined, ?s1)"
    using b(1-4) by (rule run_writes)
  obtain evs where t: "trace ?s1 = trace s @ evs" "runs evs = []"
      "invokes evs = replicate (length vs) E"
    using fold_write_step_trace by blast
  have ev: "new_events s ?s1 = evs" using t(1) by (simp add: new_events_def)
  have p: "isFlushing ?s1" "microtasks ?s1 = [FlushTask]" "jobQueue ?s1 = [E]"
    "lookup (data ?s1) k = last vs"
    using fold_write_step_pending[OF assms(2) b(7,8,9)] by simp_all
  have m: "run_microtasks (depth g (data ?s1) + 6 + m) ?s1 = Some ?s2"
    using b(3,5) by (intro run_microtasks_flush[OF _ _ b(6) p(3) p(2)]) simp_all
  have ev2: "new_events ?s1 ?s2 = EvRun E # quiet_trace g (data ?s1) (Some E)"
    by (simp add: new_events_def)
  have "run (length vs + 3 + n) (writes k vs) s = Some (Inr Undefined, ?s1) \<and>
        invokes (new_events s ?s1) = replicate (length vs) E \<and>
        runs (new_events s ?s1) = [] \<and>
        jobQueue ?s1 = [E] \<and> isFlushing ?s1 \<and> microtasks ?s1 = [FlushTask] \<and>
        lookup (data ?s1) k = last vs \<and>
        run_microtasks (depth g (data ?s1) + 6 + m) ?s1 = Some ?s2 \<and>
        new_events ?s1 ?s2 = EvRun E # quiet_trace g (data ?s1) (Some E) \<and>
        runs (new_events ?s1 ?s2) = [E] \<and>
        data ?s2 = data ?s1 \<and> \<not> isFlushing ?s2 \<and> microtasks ?s2 = []"
    using r t(2,3) p m unfolding ev ev2 by simp
  then show ?thesis by blast
qed

lemma batched_writes_run_once_example:
  "batched ''foo'' 0 (log_of ''foo'') batched_foo \<and>
   (\<exists>s1 s2. run 5 (writes ''foo'' [Num 2, Num 3]) batched_foo = Some (Inr Undefined, s1) \<and>
      invokes (new_events batched_foo s1) = [0, 0] \<and>
      runs (new_events batched_foo s1) = [] \<and>
      microtasks s1 = [FlushTask] \<and>
      run_microtasks 8 s1 = Some s2 \<and>
      new_events s1 s2 = [EvRun 0, EvTrack Data ''foo'' (Some 0), EvLog (Num 3)] \<and>
      \<not> isFlushing s2)"
proof -
  have r: "returns (effect 5 (Fn (log_of ''foo'')) queue_options (init [(''foo'', Num 1)]))"
    by code_simp
  have f: "fn (effs batched_foo ! 0) = Fn (log_of ''foo'')"
    using effect_registers_state_of[OF r] by (simp add: batched_foo_def init_def)
  have q: "quiet (log_of ''foo'')" by (simp add: log_of_def)
  have c: "subscribers batched_foo Data ''foo'' = [0]" "activeEffect batched_foo \<noteq> Some 0"
    "0 < length (effs batched_foo)"
    "scheduler (options (effs batched_foo ! 0)) = Some JobQueueScheduler"
    "\<not> isFlushing batched_foo" "microtasks batched_foo = []" "jobQueue batched_foo = []"
    by code_simp+
  have b: "batched ''foo'' 0 (log_of ''foo'') batched_foo"
    unfolding batched_def using f q c by simp
  have ne: "[Num 2, Num 3] \<noteq> []" by simp
  from batched_writes_run_once[OF b ne, of 0 0]
  obtain s1 s2 where 1:
    "run (length [Num 2, Num 3] + 3 + 0) (writes ''foo'' [Num 2, Num 3]) batched_foo = Some (Inr Undefined, s1)"
    "invokes (new_events batched_foo s1) = replicate (length [Num 2, Num 3]) 0"
    "runs (new_events batched_foo s1) = []" "microtasks s1 = [FlushTask]"
    "lookup (data s1) ''foo'' = last [Num 2, Num 3]"
    "run_microtasks (depth (log_of ''foo'') (data s1) + 6 + 0) s1 = Some s2"
    "new_events s1 s2 = EvRun 0 # quiet_trace (log_of ''foo'') (data s1) (Some 0)"
    "\<not> isFlushing s2"
    by blast
  have d: "depth (log_of ''foo'') (data s1) + 6 + 0 = 8" by (simp add: log_of_def)
  have l: "length [Num 2, Num 3] + 3 + 0 = 5" by simp
  have i: "replicate (length [Num 2, Num 3]) (0::nat) = [0, 0]" by (simp add: numeral_2_eq_2)
  have t: "EvRun 0 # quiet_trace (log_of ''foo'') (data s1) (Some 0) =
           [EvRun 0, EvTrack Data ''foo'' (Some 0), EvLog (Num 3)]"
    using 1(5) by (simp add: log_of_def)
  show ?thesis using b 1 unfolding d l i t by blast
qed

text \<open>The claim as stated fails: effect 0 was left as the active effect by its throw. Its
  latest run, under the write of \<^verbatim>\<open>a\<close>, returns and reads only \<^verbatim>\<open>a\<close>. The read of \<^verbatim>\<open>obj.k\<close> made
  afterwards outside any effect function is tracked for effect 0, and the next write of
  \<^verbatim>\<open>k\<close> runs effect 0 again.\<close>

theorem read_outside_resubscribes:
  "throws (effect 5 (Fn guarded_reader) plain_options (init [(''a'', Num 0), (''k'', Num 2)])) \<and>
   activeEffect thrown_once = Some 0 \<and>
   returns (effect 9 (Fn (Put ''a'' (Num 1) (Return Undefined))) plain_options thrown_once) \<and>
   new_events thrown_once rerun_by_writer =
     [EvRun 1, EvTrigger Data ''a'', EvInvoke 3 0, EvRun 0, EvTrack Data ''a'' (Some 0)] \<and>
   subscribers rerun_by_writer Data ''k'' = [] \<and> activeEffect rerun_by_writer = Some 0 \<and>
   returns (run 3 (Get ''k'' Return) rerun_by_writer) \<and>
   new_events rerun_by_writer read_outside = [EvTrack Data ''k'' (Some 0)] \<and>
   subscribers read_outside Data ''k'' = [0] \<and>
   returns (effect 9 (Fn (Put ''k'' (Num 7) (Return Undefined))) plain_options read_outside) \<and>
   new_events read_outside written_by_other =
     [EvRun 2, EvTrigger Data ''k'', EvInvoke 9 0, EvRun 0, EvTrack Data ''a'' (Some 0)]"
  by code_simp



text \<open>The claim as stated fails: both effects are triggered in the tick and queued, one flush
  is scheduled; in the flush the first job throws, which ends the walk of the queue, and the
  second effect is not executed.\<close>

theorem throwing_job_ends_flush:
  "returns (run 12 (Put ''x'' (Num 1) (Put ''foo'' (Num 2) (Return Undefined))) thrower_queued) \<and>
   invokes (new_events thrower_queued thrower_tick) = [0, 1] \<and>
   runs (new_events thrower_queued thrower_tick) = [] \<and>
   jobQueue thrower_tick = [0, 1] \<and> microtasks thrower_tick = [FlushTask] \<and>
   run_microtasks 12 thrower_tick \<noteq> None \<and>
   new_events thrower_tick thrower_flushed =
     [EvRun 0, EvTrack Data ''x'' (Some 0), EvUnhandled (Str ''boom'')] \<and>
   microtasks thrower_flushed = [] \<and> \<not> isFlushing thrower_flushed"
  by code_simp

lemma set_add_idem [simp]: "set_add a (set_add a xs) = set_add a xs"
  by (simp add: set_add_def)



lemma static_fold_track [simp]:
  "fn (effs (fold (\<lambda>k. track Data k) ks s) ! e) = fn (effs s ! e)"
  "options (effs (fold (\<lambda>k. track Data k) ks s) ! e) = options (effs s ! e)"
  by (induction ks arbitrary: s) simp_all

lemma getter_run_fields [simp]:
  "data (getter_run e s) = data s" "watches (getter_run e s) = watches s"
  "microtasks (getter_run e s) = microtasks s" "jobQueue (getter_run e s) = jobQueue s"
  "isFlushing (getter_run e s) = isFlushing s" "comps (getter_run e s) = comps s"
  "length (effs (getter_run e s)) = length (effs s)"
  "effectStack (getter_run e s) = effectStack s"
  "activeEffect (getter_run e s) = (if effectStack s = [] then None else Some (last (effectStack s)))"
  "trace (getter_run e s) = trace s @ EvRun e # map (\<lambda>k. EvTrack Data k (Some e)) (map fst (data s))"
  "fn (effs (getter_run e s) ! e') = fn (effs s ! e')"
  "options (effs (getter_run e s) ! e') = options (effs s ! e')"
  by (simp_all add: getter_run_def)







lemma job_run_fields [simp]:
  "data (job_run w s) = data s" "microtasks (job_run w s) = microtasks s"
  "jobQueue (job_run w s) = jobQueue s" "isFlushing (job_run w s) = isFlushing s"
  "comps (job_run w s) = comps s" "length (watches (job_run w s)) = length (watches s)"
  "effectStack (job_run w s) = effectStack s"
  "activeEffect (job_run w s) = (if effectStack s = [] then None else Some (last (effectStack s)))"
  "length (effs (job_run w s)) = length (effs s)"
  "fn (effs (job_run w s) ! e') = fn (effs s ! e')"
  "options (effs (job_run w s) ! e') = options (effs s ! e')"
  by (simp_all add: job_run_def Let_def)






lemma watching_microtasks [simp]: "watching w (s\<lparr>microtasks := ts\<rparr>) = watching w s"
  by (simp add: watching_def)

lemma triggered_fields [simp]:
  "data (triggered k v e s) = write_data k v (data s)" "microtasks (triggered k v e s) = microtasks s"
  "watches (triggered k v e s) = watches s" "effectStack (triggered k v e s) = effectStack s"
  "trace (triggered k v e s) = trace s @ [EvTrigger Data k, EvInvoke (length (trace s)) e]"
  by (simp_all add: triggered_def)



lemma wc_simps [simp]:
  "writes_and_callbacks [] = []"
  "writes_and_callbacks (xs @ ys) = writes_and_callbacks xs @ writes_and_callbacks ys"
  "writes_and_callbacks (EvTrigger t k # evs) = EvTrigger t k # writes_and_callbacks evs"
  "writes_and_callbacks (EvCallback w a b # evs) = EvCallback w a b # writes_and_callbacks evs"
  "writes_and_callbacks (EvInvoke i e # evs) = writes_and_callbacks evs"
  "writes_and_callbacks (EvRun e # evs) = writes_and_callbacks evs"
  "writes_and_callbacks (EvTrack t k x # evs) = writes_and_callbacks evs"
  "writes_and_callbacks (EvLog v # evs) = writes_and_callbacks evs"
  by (simp_all add: writes_and_callbacks_def)

lemma wc_silent [simp]:
  "writes_and_callbacks (map (\<lambda>k. EvTrack Data k a) ks) = []"
  "writes_and_callbacks (quiet_trace p d a) = []"
proof -
  show "writes_and_callbacks (map (\<lambda>k. EvTrack Data k a) ks) = []" by (induction ks) simp_all
  show "writes_and_callbacks (quiet_trace p d a) = []" by (induction p) simp_all
qed


lemma new_events_trans:
  "prefix (trace s) (trace s1) \<Longrightarrow> prefix (trace s1) (trace s2) \<Longrightarrow>
   new_events s s2 = new_events s s1 @ new_events s1 s2"
  by (auto simp: prefix_def new_events_def)





lemma init_data [simp]: "data (init d) = d"
  by (simp add: init_def)









lemma invokes_simps [simp]:
  "invokes [] = []" "invokes (xs @ ys) = invokes xs @ invokes ys"
  "invokes (EvInvoke tid e # evs) = e # invokes evs"
  "invokes (EvRun e # evs) = invokes evs" "invokes (EvTrack t k a # evs) = invokes evs"
  "invokes (EvTrigger t k # evs) = invokes evs" "invokes (EvValue c # evs) = invokes evs"
  "invokes (EvCallback w x y # evs) = invokes evs" "invokes (EvLog v # evs) = invokes evs"
  "invokes (EvUnhandled v # evs) = invokes evs"
  by (simp_all add: invokes_def)

lemma flushJob_flag [simp]:
  "isFlushing (flushJob s)"
  "microtasks (flushJob s) = (if isFlushing s then microtasks s else microtasks s @ [FlushTask])"
  "flush_budget (flushJob s) = flush_budget s"
  by (simp_all add: flushJob_def flush_budget_def)

lemma closed_kept: "step_closed kept"
  unfolding step_closed_def kept_def
proof (intro conjI allI impI)
  fix s s1 s2
  assume a: "same_shape s s1 \<and> prefix (jobQueue s) (jobQueue s1) \<and>
       (distinct (jobQueue s) \<longrightarrow> distinct (jobQueue s1)) \<and>
       (isFlushing s \<longrightarrow> isFlushing s1) \<and> flush_budget s1 = flush_budget s \<and>
       prefix (trace s) (trace s1)"
    and b: "same_shape s1 s2 \<and> prefix (jobQueue s1) (jobQueue s2) \<and>
       (distinct (jobQueue s1) \<longrightarrow> distinct (jobQueue s2)) \<and>
       (isFlushing s1 \<longrightarrow> isFlushing s2) \<and> flush_budget s2 = flush_budget s1 \<and>
       prefix (trace s1) (trace s2)"
  show "same_shape s s2" using a b same_shape_trans by blast
  show "prefix (jobQueue s) (jobQueue s2)" using a b by (meson prefix_order.trans)
  show "prefix (trace s) (trace s2)" using a b by (meson prefix_order.trans)
  show "flush_budget s2 = flush_budget s" using a b by simp
  {
    assume "isFlushing s" then show "isFlushing s2" using a b by blast
  }
  {
    assume "distinct (jobQueue s)" then show "distinct (jobQueue s2)" using a b by blast
  }
qed (simp_all add: flush_budget_def set_add_def)

lemma batching_kept: "kept s s' \<Longrightarrow> batching E s \<Longrightarrow> batching E s'"
  using same_shape_nth(2)[of s s' E] same_shape_lengths(1)[of s s']
  by (simp add: kept_def batching_def same_shape_def)

lemma kept_refl: "kept s s"
  by (rule sc_refl[OF closed_kept])

lemma idle_refl: "idle E s s"
  by (simp add: idle_def kept_refl quietly_def)

lemma idle_trans:
  assumes "idle E s s1" "idle E s1 s2"
  shows "idle E s s2"
proof -
  have k: "kept s s1" "kept s1 s2" using assms by (simp_all add: idle_def)
  have k2: "kept s s2" using sc_trans[OF closed_kept k] .
  have "quietly E s s2" if b: "batching E s"
  proof -
    have b1: "batching E s1" using batching_kept[OF k(1) b] .
    obtain evs1 where 1: "trace s1 = trace s @ evs1" "EvRun E \<notin> set evs1"
        "E \<in> set (invokes evs1) \<longrightarrow> E \<in> set (jobQueue s1) \<and> isFlushing s1"
      using assms(1) b by (auto simp: idle_def quietly_def)
    obtain evs2 where 2: "trace s2 = trace s1 @ evs2" "EvRun E \<notin> set evs2"
        "E \<in> set (invokes evs2) \<longrightarrow> E \<in> set (jobQueue s2) \<and> isFlushing s2"
      using assms(2) b1 by (auto simp: idle_def quietly_def)
    have m: "E \<in> set (jobQueue s1) \<and> isFlushing s1 \<longrightarrow> E \<in> set (jobQueue s2) \<and> isFlushing s2"
      using k(2) set_mono_prefix[of "jobQueue s1" "jobQueue s2"] by (auto simp: kept_def)
    have "trace s2 = trace s @ (evs1 @ evs2)" using 1(1) 2(1) by simp
    moreover have "EvRun E \<notin> set (evs1 @ evs2)" using 1(2) 2(2) by simp
    moreover have "E \<in> set (invokes (evs1 @ evs2)) \<longrightarrow> E \<in> set (jobQueue s2) \<and> isFlushing s2"
      using 1(3) 2(3) m by auto
    ultimately show ?thesis unfolding quietly_def by blast
  qed
  then show ?thesis using k2 by (simp add: idle_def)
qed

lemma idle_step:
  assumes "kept s s'" "trace s' = trace s @ evs"
    "batching E s \<Longrightarrow> EvRun E \<notin> set evs \<and> E \<notin> set (invokes evs)"
  shows "idle E s s'"
  unfolding idle_def quietly_def using assms by blast

lemma idle_emit:
  assumes "ev \<noteq> EvRun E" "\<And>tid. ev \<noteq> EvInvoke tid E"
  shows "idle E s (emit ev s)"
proof (rule idle_step[where evs = "[ev]"])
  show "kept s (emit ev s)" by (rule sc_emit[OF closed_kept])
  show "EvRun E \<notin> set [ev] \<and> E \<notin> set (invokes [ev])"
    using assms by (cases ev) (auto simp: invokes_def)
qed simp

lemma idle_track: "idle E s (track t k s)"
  by (rule idle_step[where evs = "[EvTrack t k (activeEffect s)]"])
     (simp_all add: sc_track[OF closed_kept])

lemma idle_write: "idle E s (s\<lparr>data := write_data k v (data s)\<rparr>)"
  by (rule idle_step[where evs = "[]"]) (simp_all add: sc_write[OF closed_kept])

lemma idle_enter:
  assumes "e < length (effs s)" "batching E s \<Longrightarrow> e \<noteq> E"
  shows "idle E s (enter e s)"
  by (rule idle_step[where evs = "[EvRun e]"]) (use assms in \<open>simp_all add: sc_enter[OF closed_kept]\<close>)

lemma idle_pop: "idle E s (pop_stack s)"
  by (rule idle_step[where evs = "[]"]) (simp_all add: sc_pop[OF closed_kept])

lemma idle_set_dirty: "idle E s (set_dirty c b s)"
  by (rule idle_step[where evs = "[]"]) (simp_all add: sc_set_dirty[OF closed_kept])

lemma idle_set_c_value: "idle E s (set_c_value c v s)"
  by (rule idle_step[where evs = "[]"]) (simp_all add: sc_set_c_value[OF closed_kept])

lemma idle_set_newValue: "idle E s (set_newValue w v s)"
  by (rule idle_step[where evs = "[]"]) (simp_all add: sc_set_newValue[OF closed_kept])

lemma idle_set_oldValue: "idle E s (set_oldValue w v s)"
  by (rule idle_step[where evs = "[]"]) (simp_all add: sc_set_oldValue[OF closed_kept])

lemma idle_queue:
  assumes "e < length (effs s)" "scheduler (options (effs s ! e)) = Some JobQueueScheduler"
  shows "idle E s (flushJob (s\<lparr>jobQueue := set_add e (jobQueue s)\<rparr>))"
  by (rule idle_step[where evs = "[]"]) (simp_all add: sc_queue[OF closed_kept assms])

lemma idle_post:
  assumes "w < length (watches s)"
  shows "idle E s (s\<lparr>microtasks := microtasks s @ [JobTask w]\<rparr>)"
  by (rule idle_step[where evs = "[]"]) (simp_all add: sc_post[OF closed_kept assms])

lemma idle_invoke:
  assumes "idle E (emit (EvInvoke tid e) s) s1"
    "batching E s \<Longrightarrow> e = E \<Longrightarrow> E \<in> set (jobQueue s1) \<and> isFlushing s1"
  shows "idle E s s1"
proof -
  let ?s0 = "emit (EvInvoke tid e) s"
  have k0: "kept s ?s0" by (rule sc_emit[OF closed_kept])
  have k: "kept s s1" using sc_trans[OF closed_kept k0] assms(1) by (simp add: idle_def)
  have "quietly E s s1" if b: "batching E s"
  proof -
    have "batching E ?s0" using batching_kept[OF k0 b] .
    then obtain evs where 1: "trace s1 = trace ?s0 @ evs" "EvRun E \<notin> set evs"
        "E \<in> set (invokes evs) \<longrightarrow> E \<in> set (jobQueue s1) \<and> isFlushing s1"
      using assms(1) by (auto simp: idle_def quietly_def)
    have "trace s1 = trace s @ (EvInvoke tid e # evs)" using 1(1) by simp
    moreover have "EvRun E \<notin> set (EvInvoke tid e # evs)" using 1(2) by simp
    moreover have "E \<in> set (invokes (EvInvoke tid e # evs)) \<longrightarrow> E \<in> set (jobQueue s1) \<and> isFlushing s1"
      using 1(3) assms(2)[OF b] by auto
    ultimately show ?thesis unfolding quietly_def by blast
  qed
  then show ?thesis using k by (simp add: idle_def)
qed

lemma idle_fold_track: "idle E s (fold (\<lambda>k. track Data k) ks s)"
proof (induction ks arbitrary: s)
  case (Cons k ks)
  show ?case using idle_trans[OF idle_track Cons] by simp
qed (simp add: idle_refl)

lemma idle_traverse: "traverse v seen s = (r, s') \<Longrightarrow> idle E s s'"
  using idle_fold_track idle_refl by (auto simp: traverse_def split: if_splits)

lemma batching_comp: "batching E s \<Longrightarrow> c < length (comps s) \<Longrightarrow> c_effect (comps s ! c) \<noteq> E"
  by (auto simp: batching_def)

lemma batching_watch: "batching E s \<Longrightarrow> w < length (watches s) \<Longrightarrow> w_effect (watches s ! w) \<noteq> E"
  by (auto simp: batching_def)

lemma batching_direct: "batching E s \<Longrightarrow> scheduler (options (effs s ! e)) = None \<Longrightarrow> e \<noteq> E"
  by (auto simp: batching_def)

lemma batching_emit [simp]: "batching E (emit ev s) = batching E s"
  by (simp add: batching_def)

lemma idle_induct:
  shows "\<forall>r s'. run n p s = Some (r, s') \<longrightarrow> idle E s s'"
    and "\<forall>r s'. computed_value n c s = Some (r, s') \<longrightarrow> idle E s s'"
    and "\<forall>r s'. trigger n t k s = Some (r, s') \<longrightarrow> idle E s s'"
    and "\<forall>r s'. run_effects n tid es s = Some (r, s') \<longrightarrow> idle E s s'"
    and "\<forall>r s'. e < length (effs s) \<longrightarrow> scheduler (options (effs s ! e)) = Some sch \<longrightarrow>
           call_scheduler n sch e s = Some (r, s') \<longrightarrow>
           idle E s s' \<and> (batching E s \<longrightarrow> e = E \<longrightarrow> E \<in> set (jobQueue s') \<and> isFlushing s')"
    and "\<forall>r s'. job n w s = Some (r, s') \<longrightarrow> idle E s s'"
    and "\<forall>r s'. effectFn n e s = Some (r, s') \<longrightarrow> (batching E s \<longrightarrow> e \<noteq> E) \<longrightarrow> idle E s s'"
proof (induction n p s and n c s and n t k s and n tid es s and n sch e s and n w s and n e s
       rule: exec_induct)
  case (1 p s) show ?case by simp
next
  case (2 n v s) show ?case using idle_refl by simp
next
  case (3 n v s) show ?case using idle_refl by simp
next
  case (4 n k f s)
  show ?case using 4 idle_trans[OF idle_track] by auto
next
  case (5 n k v p s)
  show ?case
  proof (intro allI impI)
    fix r s' assume "run (Suc n) (Put k v p) s = Some (r, s')"
    then show "idle E s s'"
    proof (cases rule: run_PutE)
      case (throws x)
      then have "idle E (s\<lparr>data := write_data k v (data s)\<rparr>) s'" using 5(1) by fastforce
      then show ?thesis using idle_trans[OF idle_write] by blast
    next
      case (continues s1)
      then have "idle E (s\<lparr>data := write_data k v (data s)\<rparr>) s1" using 5(1) by fastforce
      then have "idle E s s1" using idle_trans[OF idle_write] by blast
      moreover have "idle E s1 s'" using 5(2) continues by blast
      ultimately show ?thesis using idle_trans by blast
    qed
  qed
next
  case (6 n c f s)
  show ?case
  proof (intro allI impI)
    fix r s' assume "run (Suc n) (Value c f) s = Some (r, s')"
    then show "idle E s s'"
    proof (cases rule: run_ValueE)
      case (throws x)
      then show ?thesis using 6(1) by fastforce
    next
      case (continues v s1)
      then have "idle E s s1" using 6(1) by fastforce
      moreover have "idle E s1 s'" using 6(2) continues by blast
      ultimately show ?thesis using idle_trans by blast
    qed
  qed
next
  case (7 n v p s)
  have "idle E s (emit (EvLog v) s)" by (rule idle_emit) simp_all
  then show ?case using 7 idle_trans by auto
next
  case (8 c s) show ?case by simp
next
  case (9 n c s)
  have ev: "idle E s (emit (EvValue c) s)" by (rule idle_emit) simp_all
  show ?case
  proof (intro allI impI)
    fix r s' assume "computed_value (Suc n) c s = Some (r, s')"
    then show "idle E s s'"
    proof (cases rule: computed_value_SucE)
      case invalid
      then show ?thesis using ev by simp
    next
      case (throws x)
      have ne: "batching E (emit (EvValue c) s) \<longrightarrow> c_effect (comps s ! c) \<noteq> E"
        using batching_comp[OF _ throws(1)] by simp
      have "idle E (emit (EvValue c) s) s'"
        using 9[of "emit (EvValue c) s"] throws ne by fastforce
      then show ?thesis using idle_trans[OF ev] by simp
    next
      case (recomputed v s1)
      have ne: "batching E (emit (EvValue c) s) \<longrightarrow> c_effect (comps s ! c) \<noteq> E"
        using batching_comp[OF _ recomputed(1)] by simp
      have "idle E (emit (EvValue c) s) s1"
        using 9[of "emit (EvValue c) s"] recomputed ne by fastforce
      then have "idle E s s1" using idle_trans[OF ev] by simp
      then have "idle E s (track (Handle c) ''value'' (set_dirty c False (set_c_value c v s1)))"
        using idle_trans[OF _ idle_trans[OF idle_set_c_value idle_trans[OF idle_set_dirty idle_track]]]
        by blast
      then show ?thesis using recomputed by simp
    next
      case cached
      then show ?thesis using idle_trans[OF ev idle_track] by simp
    qed
  qed
next
  case (10 t k s) show ?case by simp
next
  case (11 n t k s)
  have ev: "idle E s (emit (EvTrigger t k) s)" by (rule idle_emit) simp_all
  show ?case
  proof (intro allI impI)
    fix r s' assume "trigger (Suc n) t k s = Some (r, s')"
    then show "idle E s s'"
    proof (cases rule: trigger_SucE)
      case no_map
      then show ?thesis using ev by simp
    next
      case (runs depsMap)
      then have "idle E (emit (EvTrigger t k) s) s'" using 11 by blast
      then show ?thesis using idle_trans[OF ev] by blast
    qed
  qed
next
  case (12 tid es s) show ?case by simp
next
  case (13 n tid s) show ?case using idle_refl by simp
next
  case (14 n tid e es s)
  show ?case
  proof (intro allI impI)
    fix r s' assume "run_effects (Suc n) tid (e # es) s = Some (r, s')"
    then show "idle E s s'"
    proof (cases rule: run_effects_ConsE)
      case invalid
      have "idle E s (emit (EvInvoke tid e) s)"
        by (rule idle_invoke[OF idle_refl]) (use invalid in \<open>auto simp: batching_def\<close>)
      then show ?thesis using invalid by simp
    next
      case (sched_throws sch x)
      then have "idle E (emit (EvInvoke tid e) s) s' \<and>
          (batching E (emit (EvInvoke tid e) s) \<longrightarrow> e = E \<longrightarrow> E \<in> set (jobQueue s') \<and> isFlushing s')"
        using 14(2)[of "emit (EvInvoke tid e) s" sch] by fastforce
      then show ?thesis using idle_invoke[of E tid e s s'] by simp
    next
      case (sched sch s1)
      then have "idle E (emit (EvInvoke tid e) s) s1 \<and>
          (batching E (emit (EvInvoke tid e) s) \<longrightarrow> e = E \<longrightarrow> E \<in> set (jobQueue s1) \<and> isFlushing s1)"
        using 14(2)[of "emit (EvInvoke tid e) s" sch] by fastforce
      then have "idle E s s1" using idle_invoke[of E tid e s s1] by simp
      moreover have "idle E s1 s'" using 14(3) sched by blast
      ultimately show ?thesis using idle_trans by blast
    next
      case (direct_throws x)
      have ne: "batching E (emit (EvInvoke tid e) s) \<longrightarrow> e \<noteq> E"
        using batching_direct[OF _ direct_throws(2)] by simp
      have "idle E (emit (EvInvoke tid e) s) s'"
        using 14(1)[of "emit (EvInvoke tid e) s"] direct_throws ne by fastforce
      then show ?thesis using idle_invoke[of E tid e s s'] ne by simp
    next
      case (direct v s1)
      have ne: "batching E (emit (EvInvoke tid e) s) \<longrightarrow> e \<noteq> E"
        using batching_direct[OF _ direct(2)] by simp
      have "idle E (emit (EvInvoke tid e) s) s1"
        using 14(1)[of "emit (EvInvoke tid e) s"] direct ne by fastforce
      then have "idle E s s1" using idle_invoke[of E tid e s s1] ne by simp
      moreover have "idle E s1 s'" using 14(3) direct by blast
      ultimately show ?thesis using idle_trans by blast
    qed
  qed
next
  case (15 sch e s) show ?case by simp
next
  case (16 n e s)
  show ?case using idle_queue[of e s E] by (simp add: set_add_def)
next
  case (17 n c e s)
  show ?case
  proof (intro allI impI)
    fix r s' assume a: "e < length (effs s)" "scheduler (options (effs s ! e)) = Some (ComputedScheduler c)"
    then have ne: "batching E s \<longrightarrow> e \<noteq> E" by (auto simp: batching_def)
    assume "call_scheduler (Suc n) (ComputedScheduler c) e s = Some (r, s')"
    then have "idle E s s'"
    proof (cases rule: call_scheduler_ComputedE)
      case invalid
      then show ?thesis using idle_refl by simp
    next
      case invalidates
      then have "idle E (set_dirty c True s) s'" using 17 by blast
      then show ?thesis using idle_trans[OF idle_set_dirty] by blast
    next
      case already
      then show ?thesis using idle_refl by simp
    qed
    then show "idle E s s' \<and> (batching E s \<longrightarrow> e = E \<longrightarrow> E \<in> set (jobQueue s') \<and> isFlushing s')"
      using ne by blast
  qed
next
  case (18 n w e s)
  show ?case
  proof (intro allI impI)
    fix r s' assume a: "e < length (effs s)" "scheduler (options (effs s ! e)) = Some (WatchScheduler w)"
    then have ne: "batching E s \<longrightarrow> e \<noteq> E" by (auto simp: batching_def)
    assume "call_scheduler (Suc n) (WatchScheduler w) e s = Some (r, s')"
    then have "idle E s s'"
    proof (cases rule: call_scheduler_WatchE)
      case invalid
      then show ?thesis using idle_refl by simp
    next
      case post
      then show ?thesis using idle_post by simp
    next
      case sync
      then show ?thesis using 18 by blast
    qed
    then show "idle E s s' \<and> (batching E s \<longrightarrow> e = E \<longrightarrow> E \<in> set (jobQueue s') \<and> isFlushing s')"
      using ne by blast
  qed
next
  case (19 w s) show ?case by simp
next
  case (20 n w s)
  have cbev: "\<And>s a b. idle E s (emit (EvCallback w a b) s)" by (rule idle_emit) simp_all
  show ?case
  proof (intro allI impI)
    fix r s' assume "job (Suc n) w s = Some (r, s')"
    then show "idle E s s'"
    proof (cases rule: job_SucE)
      case invalid
      then show ?thesis using idle_refl by simp
    next
      case (getter_throws x)
      have ne: "batching E s \<longrightarrow> w_effect (watches s ! w) \<noteq> E"
        using batching_watch[OF _ getter_throws(1)] by simp
      show ?thesis using 20(1) getter_throws ne by fastforce
    next
      case (cb_throws v s1 x)
      have ne: "batching E s \<longrightarrow> w_effect (watches s ! w) \<noteq> E"
        using batching_watch[OF _ cb_throws(1)] by simp
      have a: "idle E s s1" using 20(1) cb_throws ne by fastforce
      have b: "idle E s1 (set_newValue w v s1)" using idle_set_newValue .
      have c: "idle E (emit (EvCallback w (newValue (watches (set_newValue w v s1) ! w))
                (oldValue (watches (set_newValue w v s1) ! w))) (set_newValue w v s1)) s'"
        using 20(2)[OF _ refl refl refl] cb_throws by fastforce
      show ?thesis
        using idle_trans[OF a idle_trans[OF b idle_trans[OF cbev c]]] .
    next
      case (finished v s1 u s3)
      have ne: "batching E s \<longrightarrow> w_effect (watches s ! w) \<noteq> E"
        using batching_watch[OF _ finished(1)] by simp
      have a: "idle E s s1" using 20(1) finished ne by fastforce
      have b: "idle E s1 (set_newValue w v s1)" using idle_set_newValue .
      have c: "idle E (emit (EvCallback w (newValue (watches (set_newValue w v s1) ! w))
                (oldValue (watches (set_newValue w v s1) ! w))) (set_newValue w v s1)) s3"
        using 20(2)[OF _ refl refl refl] finished by fastforce
      have abc: "idle E s s3"
        using idle_trans[OF a idle_trans[OF b idle_trans[OF cbev c]]] .
      have "idle E s3 s'" using idle_set_oldValue finished by simp
      then show ?thesis using idle_trans[OF abc] by simp
    qed
  qed
next
  case (21 e s) show ?case by simp
next
  case (22 n e s)
  show ?case
  proof (intro allI impI)
    fix r s' assume "effectFn (Suc n) e s = Some (r, s')" and ne: "batching E s \<longrightarrow> e \<noteq> E"
    from this(1) show "idle E s s'"
    proof (cases rule: effectFn_SucE)
      case invalid
      then show ?thesis using idle_refl by simp
    next
      case (fn_throws p x)
      have en: "idle E s (enter e s)" using idle_enter[OF fn_throws(1)] ne by blast
      have "idle E (enter e s) s'"
        using 22[OF _ refl refl, of p] fn_throws by (fastforce simp: enter_def)
      then show ?thesis using idle_trans[OF en] by simp
    next
      case (fn_returns p v s3)
      have en: "idle E s (enter e s)" using idle_enter[OF fn_returns(1)] ne by blast
      have "idle E (enter e s) s3"
        using 22[OF _ refl refl, of p] fn_returns by (fastforce simp: enter_def)
      then show ?thesis using idle_trans[OF en idle_trans[OF _ idle_pop]] fn_returns by simp
    next
      case (traverses src v s3)
      have en: "idle E s (enter e s)" using idle_enter[OF traverses(1)] ne by blast
      have "idle E (enter e s) s3" using idle_traverse traverses by blast
      then show ?thesis using idle_trans[OF en idle_trans[OF _ idle_pop]] traverses by simp
    qed
  qed
qed

lemmas idle_exec = idle_induct[rule_format]

lemmas kept_exec = step_closed_exec[OF closed_kept]

lemma set_runs: "e \<in> set (runs evs) \<longleftrightarrow> EvRun e \<in> set evs"
  by (induction evs) (auto simp: runs_def split: event.splits)

lemma count_runs_0: "EvRun E \<notin> set evs \<Longrightarrow> count_list (runs evs) E = 0"
  by (simp add: set_runs count_list_0_iff)

lemma runs_EvRun [simp]: "runs (EvRun e # evs) = e # runs evs"
  by (simp add: runs_def)

text \<open>A run of the runner of \<open>E\<close> enters \<open>E\<close> once; a run of another runner does not enter it.\<close>

lemma effectFn_batched_once:
  assumes b: "batching E s" and r: "effectFn n E s = Some (r, s')"
  shows "count_list (runs (new_events s s')) E = 1"
proof (cases n)
  case 0
  then show ?thesis using r by simp
next
  case (Suc m)
  have E: "E < length (effs s)" using b by (simp add: batching_def)
  have be: "batching E (enter E s)" using batching_kept[OF sc_enter[OF closed_kept E] b] .
  have body: "count_list (runs (new_events s s')) E = 1"
    if "idle E (enter E s) s3" "trace s' = trace s3" for s3
  proof -
    from that(1) be obtain evs where "trace s3 = trace (enter E s) @ evs" "EvRun E \<notin> set evs"
      by (auto simp: idle_def quietly_def)
    then have "new_events s s' = EvRun E # evs" "count_list (runs evs) E = 0"
      using that(2) by (simp_all add: new_events_def count_runs_0)
    then show ?thesis by simp
  qed
  from r show ?thesis unfolding Suc
  proof (cases rule: effectFn_SucE)
    case invalid
    then show ?thesis using E by simp
  next
    case (fn_throws p x)
    then show ?thesis using body[OF idle_exec(1)] by blast
  next
    case (fn_returns p v s3)
    have "trace s' = trace s3" using fn_returns by simp
    then show ?thesis using body[OF idle_exec(1)[OF fn_returns(3)]] by blast
  next
    case (traverses src v s3)
    have "trace s' = trace s3" using traverses by simp
    then show ?thesis using body[OF idle_traverse[OF traverses(3)]] by blast
  qed
qed

lemma effectFn_other_none:
  assumes "batching E s" "e \<noteq> E" "effectFn n e s = Some (r, s')"
  shows "count_list (runs (new_events s s')) E = 0"
proof -
  have "idle E s s'" using idle_exec(7)[OF assms(3)] assms(2) by blast
  then obtain evs where "trace s' = trace s @ evs" "EvRun E \<notin> set evs"
    using assms(1) by (auto simp: idle_def quietly_def)
  then show ?thesis by (simp add: new_events_def count_runs_0)
qed

lemma kept_queue_nth:
  assumes "kept s s'" "i < length (jobQueue s)"
  shows "i < length (jobQueue s')" "jobQueue s' ! i = jobQueue s ! i"
  using assms by (auto simp: kept_def prefix_def nth_append)

text \<open>The walk of the queue from position \<open>i\<close> enters \<open>E\<close> at most once, and exactly once if
  it ends without a throw and \<open>E\<close> is queued at or after \<open>i\<close>.\<close>

lemma flush_walk_count:
  "flush_jobs n i s = Some (r, s') \<Longrightarrow> batching E s \<Longrightarrow> distinct (jobQueue s') \<Longrightarrow>
     count_list (runs (new_events s s')) E \<le> (if E \<in> set (drop i (jobQueue s')) then 1 else 0) \<and>
     (normal r \<longrightarrow>
        count_list (runs (new_events s s')) E = (if E \<in> set (drop i (jobQueue s')) then 1 else 0))"
proof (induction n arbitrary: i s)
  case 0
  then show ?case by simp
next
  case (Suc n)
  show ?case
  proof (cases "i < length (jobQueue s)")
    case False
    then have "s' = s" using Suc.prems(1) by simp
    then show ?thesis using False by (simp add: new_events_def)
  next
    case True
    define e where "e = jobQueue s ! i"
    have one: "count_list (runs (new_events s s1)) E = (if e = E then 1 else 0)"
      if "effectFn n e s = Some (r1, s1)" for r1 s1
      using effectFn_batched_once[OF Suc.prems(2)] effectFn_other_none[OF Suc.prems(2)] that
      by (cases "e = E") auto
    from True Suc.prems(1) consider
        x where "effectFn n e s = Some (Inl x, s')" "r = Inl x"
      | v s1 where "effectFn n e s = Some (Inr v, s1)" "flush_jobs n (Suc i) s1 = Some (r, s')"
      by (auto simp: bind_res_Some_iff e_def)
    then show ?thesis
    proof cases
      case 1
      have k: "kept s s'" using kept_exec(7)[OF 1(1)] .
      have "i < length (jobQueue s')" "jobQueue s' ! i = e"
        using kept_queue_nth[OF k True] by (simp_all add: e_def)
      then have "e \<in> set (drop i (jobQueue s'))"
        by (metis Cons_nth_drop_Suc list.set_intros(1))
      then show ?thesis using one[OF 1(1)] 1(2) by auto
    next
      case 2
      have k1: "kept s s1" using kept_exec(7)[OF 2(1)] .
      have k2: "kept s1 s'" using step_closed_flush_jobs[OF closed_kept 2(2)] .
      have b1: "batching E s1" using batching_kept[OF k1 Suc.prems(2)] .
      note IH = Suc.IH[OF 2(2) b1 Suc.prems(3)]
      have i1: "i < length (jobQueue s1)" "jobQueue s1 ! i = e"
        using kept_queue_nth[OF k1 True] by (simp_all add: e_def)
      have i2: "i < length (jobQueue s')" "jobQueue s' ! i = e"
        using kept_queue_nth[OF k2 i1(1)] i1(2) by simp_all
      have dr: "drop i (jobQueue s') = e # drop (Suc i) (jobQueue s')"
        using i2 by (metis Cons_nth_drop_Suc)
      have "distinct (drop i (jobQueue s'))" using Suc.prems(3) by simp
      then have ne: "e \<notin> set (drop (Suc i) (jobQueue s'))" unfolding dr by simp
      have "new_events s s' = new_events s s1 @ new_events s1 s'"
        using k1 k2 by (intro new_events_trans) (simp_all add: kept_def)
      then have c: "count_list (runs (new_events s s')) E =
          (if e = E then 1 else 0) + count_list (runs (new_events s1 s')) E"
        using one[OF 2(1)] by simp
      show ?thesis
      proof (cases "e = E")
        case True
        then have "count_list (runs (new_events s1 s')) E = 0" using IH ne by auto
        then show ?thesis using c True dr by simp
      next
        case False
        then show ?thesis using c IH dr by auto
      qed
    qed
  qed
qed

lemma run_task_flush:
  assumes "run_task n FlushTask s = Some s'"
  obtains r s1 where "flush_jobs n 0 s = Some (r, s1)"
    "s' = s1\<lparr>microtasks := microtasks s1 @ [FinallyTask (case r of Inl x \<Rightarrow> Some x | Inr _ \<Rightarrow> None)]\<rparr>"
  using assms unfolding run_task_def by (auto split: option.splits sum.splits prod.splits)

lemma flush_task_once:
  assumes "batching E s" "distinct (jobQueue s)" "E \<in> set (jobQueue s)"
    "run_task n FlushTask s = Some s'"
  shows "count_list (runs (new_events s s')) E \<le> 1"
    "last (microtasks s') = FinallyTask None \<Longrightarrow> count_list (runs (new_events s s')) E = 1"
proof -
  from assms(4) obtain r s1 where f: "flush_jobs n 0 s = Some (r, s1)"
    and s': "s' = s1\<lparr>microtasks := microtasks s1 @ [FinallyTask (case r of Inl x \<Rightarrow> Some x | Inr _ \<Rightarrow> None)]\<rparr>"
    by (rule run_task_flush)
  have k: "kept s s1" using step_closed_flush_jobs[OF closed_kept f] .
  then have d: "distinct (jobQueue s1)" "E \<in> set (jobQueue s1)"
    using assms(2,3) set_mono_prefix[of "jobQueue s" "jobQueue s1"] by (auto simp: kept_def)
  have ne: "new_events s s' = new_events s s1" by (simp add: s' new_events_def)
  note w = flush_walk_count[OF f assms(1) d(1)]
  show "count_list (runs (new_events s s')) E \<le> 1" using w d(2) by (simp add: ne)
  assume "last (microtasks s') = FinallyTask None"
  then have "normal r" using s' by (cases r) auto
  then show "count_list (runs (new_events s s')) E = 1" using w d(2) by (simp add: ne)
qed

lemma quiet_job_fields [simp]:
  "data (quiet_job e s) = data s" "jobQueue (quiet_job e s) = jobQueue s"
  "microtasks (quiet_job e s) = microtasks s" "isFlushing (quiet_job e s) = isFlushing s"
  "length (effs (quiet_job e s)) = length (effs s)"
  "fn (effs (quiet_job e s) ! e') = fn (effs s ! e')"
  "trace (quiet_job e s) = trace s @ EvRun e # quiet_trace (body s e) (data s) (Some e)"
  by (simp_all add: quiet_job_def quiet_run_trace)

lemma body_quiet_job [simp]: "body (quiet_job e s) e' = body s e'"
  by (simp add: body_def)

lemma quiet_queue_quiet_job [simp]: "quiet_queue (quiet_job e s) = quiet_queue s"
  by (simp add: quiet_queue_def)

lemma walk_trace_quiet_job [simp]: "walk_trace (quiet_job e s) es = walk_trace s es"
  by (simp add: walk_trace_def)

lemma effectFn_quiet_job:
  assumes "e < length (effs s)" "fn (effs s ! e) = Fn g" "quiet g"
  shows "effectFn (Suc (Suc (depth g (data s) + n))) e s =
           Some (Inr (result_of g (data s)), quiet_job e s)"
  using assms run_quiet[OF assms(3), of "enter e s" n]
  by (simp add: effectFn_Suc_enter quiet_job_def body_def del: effectFn.simps)

lemma fold_quiet_job:
  "data (fold quiet_job es s) = data s \<and> jobQueue (fold quiet_job es s) = jobQueue s \<and>
   microtasks (fold quiet_job es s) = microtasks s \<and>
   trace (fold quiet_job es s) = trace s @ walk_trace s es"
proof (induction es arbitrary: s)
  case (Cons e es)
  from Cons[of "quiet_job e s"] show ?case by (simp add: walk_trace_def)
qed (simp add: walk_trace_def)

lemma le_sum_list_map: "e \<in> set es \<Longrightarrow> (f e :: nat) \<le> sum_list (map f es)"
  by (induction es) auto

lemma quiet_walk:
  "k = length (jobQueue s) - i \<Longrightarrow> i \<le> length (jobQueue s) \<Longrightarrow> quiet_queue s \<Longrightarrow>
   flush_jobs (k + sum_list (map (\<lambda>e. depth (body s e) (data s)) (jobQueue s)) + 2 + m) i s =
     Some (Inr (), fold quiet_job (drop i (jobQueue s)) s)"
proof (induction k arbitrary: i s)
  case 0
  then show ?case by simp
next
  case (Suc k)
  define D where "D = sum_list (map (\<lambda>e. depth (body s e) (data s)) (jobQueue s))"
  define e where "e = jobQueue s ! i"
  have i: "i < length (jobQueue s)" using Suc.prems(1) by simp
  then have mem: "e \<in> set (jobQueue s)" by (simp add: e_def)
  then obtain g where g: "e < length (effs s)" "fn (effs s ! e) = Fn g" "quiet g"
    using Suc.prems(3) by (auto simp: quiet_queue_def)
  have bg: "body s e = g" using g(2) by (simp add: body_def)
  have "depth (body s e) (data s) \<le> D"
    unfolding D_def using mem by (rule le_sum_list_map)
  define N where "N = k + D + 2 + m"
  have "depth g (data s) \<le> D" using \<open>depth (body s e) (data s) \<le> D\<close> by (simp add: bg)
  then have x: "N = Suc (Suc (depth g (data s) + (k + D + m - depth g (data s))))"
    by (simp add: N_def)
  have ef: "effectFn N e s = Some (Inr (result_of g (data s)), quiet_job e s)"
    by (subst x) (rule effectFn_quiet_job[OF g])
  have p1: "k = length (jobQueue (quiet_job e s)) - Suc i" using Suc.prems(1) by simp
  have p2: "Suc i \<le> length (jobQueue (quiet_job e s))" using i by simp
  have p3: "quiet_queue (quiet_job e s)" using Suc.prems(3) by simp
  have D1: "sum_list (map (\<lambda>e'. depth (body (quiet_job e s) e') (data (quiet_job e s)))
                (jobQueue (quiet_job e s))) = D"
    by (simp add: D_def)
  have IH: "flush_jobs N (Suc i) (quiet_job e s) =
      Some (Inr (), fold quiet_job (drop (Suc i) (jobQueue s)) (quiet_job e s))"
    using Suc.IH[OF p1 p2 p3] unfolding D1 N_def by (simp only: quiet_job_fields)
  have dr: "drop i (jobQueue s) = e # drop (Suc i) (jobQueue s)"
    using i by (simp add: e_def Cons_nth_drop_Suc)
  have "flush_jobs (Suc N) i s = bind_res (effectFn N e s) (\<lambda>_. flush_jobs N (Suc i))"
    using i by (simp add: e_def)
  then have "flush_jobs (Suc N) i s = Some (Inr (), fold quiet_job (drop i (jobQueue s)) s)"
    by (simp only: ef IH bind_res_simps dr fold_simps)
  moreover have "Suc k + sum_list (map (\<lambda>e. depth (body s e) (data s)) (jobQueue s)) + 2 + m = Suc N"
    by (simp add: N_def D_def)
  ultimately show ?case by (simp only:)
qed

lemma quiet_flush_task:
  assumes "quiet_queue s"
  shows "\<exists>s'. run_task (queue_fuel s + m) FlushTask s = Some s' \<and>
           new_events s s' = walk_trace s (jobQueue s) \<and> data s' = data s \<and>
           last (microtasks s') = FinallyTask None"
proof -
  let ?s1 = "fold quiet_job (jobQueue s) s"
  have "flush_jobs (queue_fuel s + m) 0 s = Some (Inr (), ?s1)"
    using quiet_walk[of "length (jobQueue s)" s 0 m] assms by (simp add: queue_fuel_def)
  then have "run_task (queue_fuel s + m) FlushTask s =
      Some (?s1\<lparr>microtasks := microtasks ?s1 @ [FinallyTask None]\<rparr>)"
    by (simp add: run_task_def)
  then show ?thesis using fold_quiet_job[of "jobQueue s" s] by (simp add: new_events_def)
qed

lemma effect_keeps:
  assumes "effect n f opts s = Some (r, s')" "e < length (effs s)"
  shows "fn (effs s' ! e) = fn (effs s ! e)"
proof -
  let ?s1 = "s\<lparr>effs := effs s @ [\<lparr>fn = f, options = opts, deps = []\<rparr>]\<rparr>"
  have "same_shape ?s1 s'"
    using assms(1) same_shape_exec(7)[of n "length (effs s)" ?s1]
    by (auto simp: effect_def Let_def bind_res_Some_iff split: if_splits)
  from same_shape_nth(1)[OF this, of e] show ?thesis using assms(2) by (simp add: nth_append)
qed

text \<open>C5, as the code has it. Let \<open>E\<close> be an effect with the batching scheduler that is not
  the inner effect of a computed value or of a watcher, in any state \<open>s\<close>. (1) User code
  that runs from \<open>s\<close> never executes \<open>E\<close>; if it triggers \<open>E\<close>, then at its end \<open>E\<close> is in
  the queue and \<^verbatim>\<open>isFlushing\<close> is set; it queues one flush microtask if the flag was clear
  and has been set, and none otherwise; it keeps the queue free of duplicates. (2) A flush
  microtask run from \<open>s\<close> with \<open>E\<close> in the queue executes \<open>E\<close> at most once, and exactly
  once if no job of the walk throws. (3) If the queued effects only read, log and return,
  the flush microtask returns, leaves the data as they are, and executes every queued
  effect once, in queue order, each on the data that the microtask found.\<close>

theorem batched_effect_deferred:
  assumes "batching E s"
  shows "(run n p s = Some (r, s1) \<longrightarrow>
            EvRun E \<notin> set (new_events s s1) \<and>
            (E \<in> set (invokes (new_events s s1)) \<longrightarrow> E \<in> set (jobQueue s1) \<and> isFlushing s1) \<and>
            count_list (microtasks s1) FlushTask =
              count_list (microtasks s) FlushTask + (if isFlushing s1 \<and> \<not> isFlushing s then 1 else 0) \<and>
            (distinct (jobQueue s) \<longrightarrow> distinct (jobQueue s1)) \<and> batching E s1) \<and>
         (distinct (jobQueue s) \<and> E \<in> set (jobQueue s) \<and> run_task n' FlushTask s = Some s2 \<longrightarrow>
            count_list (runs (new_events s s2)) E \<le> 1 \<and>
            (last (microtasks s2) = FinallyTask None \<longrightarrow> count_list (runs (new_events s s2)) E = 1)) \<and>
         (quiet_queue s \<longrightarrow>
            (\<exists>s3. run_task (queue_fuel s + m) FlushTask s = Some s3 \<and>
               new_events s s3 = walk_trace s (jobQueue s) \<and> data s3 = data s \<and>
               last (microtasks s3) = FinallyTask None))"
proof (intro conjI impI)
  assume r: "run n p s = Some (r, s1)"
  have i: "idle E s s1" using idle_exec(1)[OF r] .
  then have k: "kept s s1" by (simp add: idle_def)
  from i assms obtain evs where evs: "trace s1 = trace s @ evs" "EvRun E \<notin> set evs"
      "E \<in> set (invokes evs) \<longrightarrow> E \<in> set (jobQueue s1) \<and> isFlushing s1"
    by (auto simp: idle_def quietly_def)
  have ne: "new_events s s1 = evs" using evs(1) by (simp add: new_events_def)
  show "EvRun E \<notin> set (new_events s s1)" using evs(2) ne by simp
  show "batching E s1" using batching_kept[OF k assms] .
  show "count_list (microtasks s1) FlushTask =
      count_list (microtasks s) FlushTask + (if isFlushing s1 \<and> \<not> isFlushing s then 1 else 0)"
    using k by (auto simp: kept_def flush_budget_def split: if_splits)
  {
    assume "E \<in> set (invokes (new_events s s1))"
    then show "E \<in> set (jobQueue s1)" "isFlushing s1" using evs(3) ne by simp_all
  }
  {
    assume "distinct (jobQueue s)"
    then show "distinct (jobQueue s1)" using k by (simp add: kept_def)
  }
next
  assume a: "distinct (jobQueue s) \<and> E \<in> set (jobQueue s) \<and> run_task n' FlushTask s = Some s2"
  then show "count_list (runs (new_events s s2)) E \<le> 1"
    using flush_task_once(1)[OF assms] by blast
  assume "last (microtasks s2) = FinallyTask None"
  then show "count_list (runs (new_events s s2)) E = 1"
    using flush_task_once(2)[OF assms] a by blast
next
  assume "quiet_queue s"
  then show "\<exists>s3. run_task (queue_fuel s + m) FlushTask s = Some s3 \<and>
               new_events s s3 = walk_trace s (jobQueue s) \<and> data s3 = data s \<and>
               last (microtasks s3) = FinallyTask None"
    by (rule quiet_flush_task)
qed

theorem batched_effect_deferred_witness:
  "batching 1 two_batched \<and>
   returns (run 12 (Put ''foo'' (Num 10) (Put ''bar'' (Num 20) (Put ''bar'' (Num 21)
      (Return Undefined)))) two_batched) \<and>
   invokes (new_events two_batched two_batched_tick) = [0, 1, 1] \<and>
   EvRun 1 \<notin> set (new_events two_batched two_batched_tick) \<and>
   1 \<in> set (jobQueue two_batched_tick) \<and> isFlushing two_batched_tick \<and>
   count_list (microtasks two_batched_tick) FlushTask = 1 \<and>
   distinct (jobQueue two_batched_tick) \<and> quiet_queue two_batched_tick \<and>
   (\<exists>s3. run_task (queue_fuel two_batched_tick) FlushTask two_batched_tick = Some s3 \<and>
      new_events two_batched_tick s3 =
        [EvRun 0, EvTrack Data ''foo'' (Some 0), EvLog (Num 10),
         EvRun 1, EvTrack Data ''bar'' (Some 1), EvLog (Num 21)] \<and>
      last (microtasks s3) = FinallyTask None \<and>
      count_list (runs (new_events two_batched_tick s3)) 1 = 1)"
proof -
  let ?p = "Put ''foo'' (Num 10) (Put ''bar'' (Num 20) (Put ''bar'' (Num 21) (Return Undefined)))"
  let ?in = "state_of (effect 5 (Fn (log_of ''foo'')) queue_options
               (init [(''foo'', Num 1), (''bar'', Num 2)]))"
  have b: "batching 1 two_batched" unfolding batching_def by code_simp
  have r: "returns (run 12 ?p two_batched)" by code_simp
  from returnsD[OF r] obtain a where run: "run 12 ?p two_batched = Some (Inr a, two_batched_tick)"
    by (auto simp: two_batched_tick_def)
  have c: "invokes (new_events two_batched two_batched_tick) = [0, 1, 1]"
    "\<not> isFlushing two_batched" "count_list (microtasks two_batched) FlushTask = 0"
    "distinct (jobQueue two_batched)" "jobQueue two_batched_tick = [0, 1]"
    "data two_batched_tick = [(''foo'', Num 10), (''bar'', Num 21)]"
    "length (effs two_batched) = 2" "length (effs ?in) = 1"
    by code_simp+
  note A = batched_effect_deferred[OF b, of 12 ?p "Inr a" two_batched_tick, THEN conjunct1, rule_format, OF run]
  have a1: "EvRun 1 \<notin> set (new_events two_batched two_batched_tick)" using A by blast
  have a2: "1 \<in> set (jobQueue two_batched_tick)" "isFlushing two_batched_tick"
    using A c(1) by simp_all
  have a3: "count_list (microtasks two_batched_tick) FlushTask = 1"
    using A a2(2) c(2,3) by simp
  have a4: "distinct (jobQueue two_batched_tick)" "batching 1 two_batched_tick"
    using A c(4) by blast+
  have r0: "returns (effect 5 (Fn (log_of ''foo'')) queue_options (init [(''foo'', Num 1), (''bar'', Num 2)]))"
    by code_simp
  have f0in: "fn (effs ?in ! 0) = Fn (log_of ''foo'')"
    using effect_registers_state_of[OF r0] by (simp add: init_def)
  have r1: "returns (effect 5 (Fn (log_of ''bar'')) queue_options ?in)" by code_simp
  have f1: "fn (effs two_batched ! 1) = Fn (log_of ''bar'')"
    using effect_registers_state_of[OF r1] c(8) by (simp add: two_batched_def)
  from returnsD[OF r1] obtain x where "effect 5 (Fn (log_of ''bar'')) queue_options ?in =
      Some (Inr x, two_batched)" by (auto simp: two_batched_def)
  from effect_keeps[OF this, of 0] have f0: "fn (effs two_batched ! 0) = Fn (log_of ''foo'')"
    using c(8) f0in by simp
  have sh: "same_shape two_batched two_batched_tick" using same_shape_exec(1)[OF run] .
  have g: "fn (effs two_batched_tick ! 0) = Fn (log_of ''foo'')"
    "fn (effs two_batched_tick ! 1) = Fn (log_of ''bar'')"
    "length (effs two_batched_tick) = 2"
    using same_shape_nth(1)[OF sh, of 0] same_shape_nth(1)[OF sh, of 1] same_shape_lengths(1)[OF sh]
      f0 f1 c(7) by simp_all
  have q: "quiet_queue two_batched_tick"
    unfolding quiet_queue_def c(5) using g by (simp add: log_of_def)
  have g': "fn (effs two_batched_tick ! Suc 0) = Fn (log_of ''bar'')" using g(2) by simp
  have wt: "walk_trace two_batched_tick (jobQueue two_batched_tick) =
      [EvRun 0, EvTrack Data ''foo'' (Some 0), EvLog (Num 10),
       EvRun 1, EvTrack Data ''bar'' (Some 1), EvLog (Num 21)]"
    unfolding c(5) by (simp add: walk_trace_def body_def g g' c(6) log_of_def lookup_def)
  from batched_effect_deferred[OF a4(2), of _ _ _ _ _ _ 0, THEN conjunct2, THEN conjunct2, rule_format, OF q]
  obtain s3 where s3: "run_task (queue_fuel two_batched_tick) FlushTask two_batched_tick = Some s3"
    "new_events two_batched_tick s3 = walk_trace two_batched_tick (jobQueue two_batched_tick)"
    "last (microtasks s3) = FinallyTask None"
    by auto
  have "count_list (runs (new_events two_batched_tick s3)) 1 = 1"
    unfolding s3(2) wt by simp
  then show ?thesis using b r c(1) a1 a2 a3 a4(1) q s3 wt by auto
qed

end
